theory Spec2Isabelle
  imports Main "HOL-Library.Sublist"
begin

section \<open>Strings\<close>

text \<open>
  A TypeScript string is a sequence of UTF-16 code units. The model uses \<^typ>\<open>string\<close>;
  a \<^typ>\<open>char\<close> stands for a code unit in the range U+0000 .. U+00FF. In that range the
  characters that \<^verbatim>\<open>String.prototype.trim\<close> strips and that the regular-expression
  class \<^verbatim>\<open>\s\<close> accepts are the same seven: TAB, LF, VT, FF, CR, SPACE and NBSP.
\<close>

definition isWhiteSpace :: "char \<Rightarrow> bool" where
  "isWhiteSpace c =
     (c = CHR 0x09 \<or> c = CHR 0x0A \<or> c = CHR 0x0B \<or> c = CHR 0x0C \<or>
      c = CHR 0x0D \<or> c = CHR 0x20 \<or> c = CHR 0xA0)"

text \<open>\<^verbatim>\<open>s.trim()\<close>: white space is removed from both ends.\<close>

definition trim :: "string \<Rightarrow> string" where
  "trim s = rev (dropWhile isWhiteSpace (rev (dropWhile isWhiteSpace s)))"

text \<open>\<^verbatim>\<open>s.includes(sub)\<close>.\<close>

fun includesStr :: "string \<Rightarrow> string \<Rightarrow> bool" where
  "includesStr [] sub = (sub = [])"
| "includesStr (c # cs) sub = (prefix sub (c # cs) \<or> includesStr cs sub)"

text \<open>\<^verbatim>\<open>s.indexOf(sub)\<close>: the first position at which \<open>sub\<close> occurs, or \<open>-1\<close>.\<close>

fun indexOfFrom :: "string \<Rightarrow> string \<Rightarrow> nat \<Rightarrow> int" where
  "indexOfFrom [] sub i = (if sub = [] then int i else - 1)"
| "indexOfFrom (c # cs) sub i =
     (if prefix sub (c # cs) then int i else indexOfFrom cs sub (Suc i))"

definition indexOf :: "string \<Rightarrow> string \<Rightarrow> int" where
  "indexOf s sub = indexOfFrom s sub 0"

text \<open>\<^verbatim>\<open>s.substring(0, k)\<close>: a negative \<open>k\<close> counts as 0, a \<open>k\<close> beyond the end as the length.\<close>

definition substring0 :: "string \<Rightarrow> int \<Rightarrow> string" where
  "substring0 s k = take (nat k) s"

section \<open>Regular expressions\<close>

text \<open>
  The four regular expressions of the component are built from a literal, \<^verbatim>\<open>\s*\<close>,
  \<^verbatim>\<open>.*\<close> and \<^verbatim>\<open>.*?\<close> (all carry the flag \<^verbatim>\<open>s\<close>, so the dot accepts every
  character) and one capturing group. \<open>rxm\<close> is the backtracking matcher of the
  language: it matches a pattern at the start of the input and tries the alternatives
  in the order of the ECMAScript semantics (a greedy star takes one more character
  first, a lazy star tries the rest of the pattern first). A successful result is the
  input left after the match, the input at the opening of the group and the input at
  its closing.
\<close>

datatype rx = Lit string | Spaces | AnyGreedy | AnyLazy | GroupOpen | GroupClose

fun rxm :: "rx list \<Rightarrow> string \<Rightarrow> (string \<times> string \<times> string) option" where
  "rxm [] s = Some (s, s, s)"
| "rxm (Lit l # p) s = (if prefix l s then rxm p (drop (length l) s) else None)"
| "rxm (Spaces # p) [] = rxm p []"
| "rxm (Spaces # p) (c # cs) =
     (if isWhiteSpace c
      then (case rxm (Spaces # p) cs of Some r \<Rightarrow> Some r | None \<Rightarrow> rxm p (c # cs))
      else rxm p (c # cs))"
| "rxm (AnyGreedy # p) [] = rxm p []"
| "rxm (AnyGreedy # p) (c # cs) =
     (case rxm (AnyGreedy # p) cs of Some r \<Rightarrow> Some r | None \<Rightarrow> rxm p (c # cs))"
| "rxm (AnyLazy # p) [] = rxm p []"
| "rxm (AnyLazy # p) (c # cs) =
     (case rxm p (c # cs) of Some r \<Rightarrow> Some r | None \<Rightarrow> rxm (AnyLazy # p) cs)"
| "rxm (GroupOpen # p) s =
     (case rxm p s of None \<Rightarrow> None | Some (e, g, c) \<Rightarrow> Some (e, s, c))"
| "rxm (GroupClose # p) s =
     (case rxm p s of None \<Rightarrow> None | Some (e, g, c) \<Rightarrow> Some (e, g, s))"

text \<open>
  The result of \<^verbatim>\<open>s.match(re)\<close> for a regular expression without the flag \<^verbatim>\<open>g\<close>:
  the position of the match, the matched text (element 0) and the text of the group
  (element 1). The start positions are tried from left to right.
\<close>

record rxMatch =
  index :: nat
  whole :: string
  group1 :: string

fun rxSearch :: "rx list \<Rightarrow> string \<Rightarrow> nat \<Rightarrow> rxMatch option" where
  "rxSearch p [] i =
     (case rxm p [] of
        None \<Rightarrow> None
      | Some (e, g, c) \<Rightarrow>
          Some \<lparr>index = i, whole = [], group1 = take (length g - length c) g\<rparr>)"
| "rxSearch p (a # s) i =
     (case rxm p (a # s) of
        None \<Rightarrow> rxSearch p s (Suc i)
      | Some (e, g, c) \<Rightarrow>
          Some \<lparr>index = i, whole = take (length (a # s) - length e) (a # s),
                group1 = take (length g - length c) g\<rparr>)"

definition matchRx :: "rx list \<Rightarrow> string \<Rightarrow> rxMatch option" where
  "matchRx p s = rxSearch p s 0"

text \<open>\<^verbatim>\<open>s.replace(re, '')\<close>: the first match is cut out.\<close>

definition replaceRx :: "rx list \<Rightarrow> string \<Rightarrow> string" where
  "replaceRx p s =
     (case matchRx p s of
        None \<Rightarrow> s
      | Some m \<Rightarrow> take (index m) s @ drop (index m + length (whole m)) s)"

text \<open>\<^verbatim>\<open>/VOICE_OVER:\s*(.*)/s\<close>\<close>

definition voiceOverRx :: "rx list" where
  "voiceOverRx = [Lit ''VOICE_OVER:'', Spaces, GroupOpen, AnyGreedy, GroupClose]"

text \<open>\<^verbatim>\<open>/LaTeX Formula:\s*(\$\$.*?\$\$)/s\<close>\<close>

definition latexRx :: "rx list" where
  "latexRx =
     [Lit ''LaTeX Formula:'', Spaces, GroupOpen, Lit ''$$'', AnyLazy, Lit ''$$'', GroupClose]"

text \<open>\<^verbatim>\<open>/MathML Formula:\s*(<math.*?<\/math>)/s\<close>\<close>

definition mathmlRx :: "rx list" where
  "mathmlRx =
     [Lit ''MathML Formula:'', Spaces, GroupOpen, Lit ''<math'', AnyLazy, Lit ''</math>'',
      GroupClose]"

text \<open>\<^verbatim>\<open>/Plain Description:\s*(.*)/s\<close>\<close>

definition descRx :: "rx list" where
  "descRx = [Lit ''Plain Description:'', Spaces, GroupOpen, AnyGreedy, GroupClose]"

section \<open>Data model\<close>

datatype role = User | Model

record Message =
  role :: role
  content :: string

datatype KeyStatus = Checking | Needed | Ready | Error

type_synonym Chat = nat

text \<open>
  The host: whether \<^verbatim>\<open>window.aistudio\<close> is defined, whether its
  \<^verbatim>\<open>hasSelectedApiKey\<close> is a function, and whether the browser has a speech engine
  (\<^verbatim>\<open>window.speechSynthesis\<close>).
\<close>

record host =
  aistudio :: bool
  hasSelectedApiKeyFn :: bool
  speechSynthesis :: bool

text \<open>The result of an awaited call: it resolves with a value or it is rejected.\<close>

datatype 'a outcome = Resolved 'a | Rejected

text \<open>
  \<^verbatim>\<open>ai.chats.create\<close> returns a new session or throws an error with a message; a
  stream of fragments ends by exhaustion or by a failure.
\<close>

datatype createOutcome = Created Chat | Threw string

datatype streamEnd = Exhausted | Failed

text \<open>
  The calls on the speech engine. An utterance carries the fixed voice settings
  (pitch 1.4, rate 1.1, volume 1), kept in tenths.
\<close>

record utterance =
  utext :: string
  pitch10 :: nat
  rate10 :: nat
  volume10 :: nat

datatype speechCall = Cancel | Speak utterance

text \<open>
  The state of the component: the React state variables and the reference
  \<open>currentModelMessage\<close>, the effects on the outside (the texts passed to
  \<^verbatim>\<open>chat.sendMessageStream\<close> and the calls on the speech engine, both in order), and
  the calls that are suspended at an \<^verbatim>\<open>await\<close>: the key check of the mount effect,
  the calls of \<open>handleSelectKey\<close> waiting for the dialog, and the call of
  \<open>handleSendMessage\<close> reading its stream, with the value of \<open>isMadScientistVoiceOn\<close>
  that its closure captured.
\<close>

record state =
  keyStatus :: KeyStatus
  isInitializing :: bool
  keyError :: "string option"
  chat :: "Chat option"
  messages :: "Message list"
  inputValue :: string
  isStreaming :: bool
  isMadScientistVoiceOn :: bool
  currentModelMessage :: string
  sent :: "string list"
  speech :: "speechCall list"
  checkPending :: bool
  selectKeyPending :: nat
  sendPending :: "bool option"

definition initial :: state where
  "initial =
     \<lparr>keyStatus = Checking, isInitializing = False, keyError = None, chat = None,
      messages = [], inputValue = [], isStreaming = False, isMadScientistVoiceOn = False,
      currentModelMessage = [], sent = [], speech = [], checkPending = True,
      selectKeyPending = 0, sendPending = None\<rparr>"

section \<open>Speech\<close>

definition toggleVoiceMode :: "host \<Rightarrow> state \<Rightarrow> state" where
  "toggleVoiceMode h s =
     (let s' = s\<lparr>isMadScientistVoiceOn := \<not> isMadScientistVoiceOn s\<rparr>
      in if isMadScientistVoiceOn s \<and> speechSynthesis h
         then s'\<lparr>speech := speech s' @ [Cancel]\<rparr>
         else s')"

definition speak :: "host \<Rightarrow> string \<Rightarrow> state \<Rightarrow> state" where
  "speak h t s =
     (if speechSynthesis h \<and> t \<noteq> []
      then s\<lparr>speech := speech s @
                [Cancel, Speak \<lparr>utext = t, pitch10 = 14, rate10 = 11, volume10 = 10\<rparr>]\<rparr>
      else s)"

section \<open>Key check and session\<close>

definition readyGreeting :: string where
  "readyGreeting =
     ''AI Coach initialized successfully. Ready to assist with Probability, Statistics, and Mathematical Analysis.''"

definition unavailableNotice :: string where
  "unavailableNotice =
     ''Sorry, the AI Coach couldn't be started. This might be because an API key isn't configured for this environment.''"

definition invalidKeyError :: string where
  "invalidKeyError =
     ''The selected API key is not valid or lacks permissions. Please choose a different key.''"

definition unexpectedInitError :: string where
  "unexpectedInitError =
     ''An unexpected error occurred during initialization. Please try selecting your key again.''"

definition keyServiceError :: string where
  "keyServiceError = ''Could not connect to the API key service. Please reload.''"

definition dialogError :: string where
  "dialogError = ''The API key selection dialog could not be opened.''"

definition initializeChat :: "host \<Rightarrow> createOutcome \<Rightarrow> state \<Rightarrow> state" where
  "initializeChat h oc s =
     (let s1 = s\<lparr>isInitializing := True, keyError := None\<rparr>;
          s2 = (case oc of
                  Created c \<Rightarrow>
                    s1\<lparr>chat := Some c,
                       messages := [\<lparr>role = Model, content = readyGreeting\<rparr>]\<rparr>
                | Threw msg \<Rightarrow>
                    (let s3 = s1\<lparr>chat := None\<rparr>
                     in if aistudio h
                        then s3\<lparr>keyStatus := Needed,
                                keyError :=
                                  Some (if includesStr msg ''API key not valid'' \<or>
                                           includesStr msg ''permission'' \<or>
                                           includesStr msg ''not found''
                                        then invalidKeyError else unexpectedInitError)\<rparr>
                        else s3\<lparr>messages :=
                                  [\<lparr>role = Model, content = unavailableNotice\<rparr>]\<rparr>))
      in s2\<lparr>isInitializing := False\<rparr>)"

definition checkKeyManagementService :: "host \<Rightarrow> bool outcome \<Rightarrow> state \<Rightarrow> state" where
  "checkKeyManagementService h q s =
     (if aistudio h \<and> hasSelectedApiKeyFn h
      then (case q of
              Resolved selected \<Rightarrow>
                if selected then s\<lparr>keyStatus := Ready\<rparr> else s\<lparr>keyStatus := Needed\<rparr>
            | Rejected \<Rightarrow> s\<lparr>keyStatus := Error, keyError := Some keyServiceError\<rparr>)
      else s\<lparr>keyStatus := Ready\<rparr>)"

text \<open>The effect that starts the session once the key is ready.\<close>

definition initEffect :: "host \<Rightarrow> createOutcome \<Rightarrow> state \<Rightarrow> state" where
  "initEffect h oc s =
     (if keyStatus s = Ready \<and> chat s = None \<and> \<not> isInitializing s
      then initializeChat h oc s else s)"

text \<open>\<open>handleSelectKey\<close> after its \<^verbatim>\<open>await window.aistudio.openSelectKey()\<close>.\<close>

definition handleSelectKey :: "unit outcome \<Rightarrow> state \<Rightarrow> state" where
  "handleSelectKey oc s =
     (case oc of
        Resolved u \<Rightarrow> s\<lparr>keyStatus := Ready\<rparr>
      | Rejected \<Rightarrow> s\<lparr>keyError := Some dialogError, keyStatus := Needed\<rparr>)"

section \<open>Sending a message\<close>

definition errorMessage :: string where
  "errorMessage = ''Oops! Something went wrong. Please try again.''"

definition voiceCommand :: "bool \<Rightarrow> string" where
  "voiceCommand v = (if v then ''Mad Scientist Voice: ON'' else ''Mad Scientist Voice: OFF'')"

definition messageToSend :: "bool \<Rightarrow> string \<Rightarrow> string" where
  "messageToSend v input = voiceCommand v @ ''\<newline>\<newline>'' @ input"

text \<open>The entry guard: the negation of the condition of the early return.\<close>

definition sendGuard :: "state \<Rightarrow> bool" where
  "sendGuard s = (\<not> (trim (inputValue s) = [] \<or> chat s = None \<or> isStreaming s))"

text \<open>From the guard to the call of \<^verbatim>\<open>chat.sendMessageStream\<close>.\<close>

definition sendStart :: "state \<Rightarrow> state" where
  "sendStart s =
     s\<lparr>messages := messages s @
          [\<lparr>role = User, content = inputValue s\<rparr>, \<lparr>role = Model, content = []\<rparr>],
       inputValue := [],
       isStreaming := True,
       currentModelMessage := [],
       sent := sent s @ [messageToSend (isMadScientistVoiceOn s) (inputValue s)],
       sendPending := Some (isMadScientistVoiceOn s)\<rparr>"

text \<open>
  One turn of the loop over the stream, for a chunk whose text is \<open>chunkText\<close>. The
  state updates are applied in the order in which they are issued.
\<close>

definition deliver :: "string \<Rightarrow> state \<Rightarrow> state" where
  "deliver chunkText s =
     (let cur = currentModelMessage s @ chunkText;
          prev = messages s
      in s\<lparr>currentModelMessage := cur,
           messages :=
             (if prev \<noteq> [] \<and> role (last prev) = Model
              then prev[length prev - 1 := (last prev)\<lparr>content := cur\<rparr>]
              else prev)\<rparr>)"

text \<open>The \<^verbatim>\<open>catch\<close> block.\<close>

definition streamError :: "state \<Rightarrow> state" where
  "streamError s =
     s\<lparr>currentModelMessage := errorMessage,
       messages := (messages s)[length (messages s) - 1 :=
                      \<lparr>role = Model, content = errorMessage\<rparr>]\<rparr>"

text \<open>
  The text handed to \<open>speak\<close> by the \<^verbatim>\<open>finally\<close> block: \<open>Some t\<close> when
  \<open>speak t\<close> is called, \<open>None\<close> when it is not called.
\<close>

definition voiceOverText :: "string \<Rightarrow> string option" where
  "voiceOverText cur =
     (case matchRx voiceOverRx cur of
        None \<Rightarrow> None
      | Some m \<Rightarrow> if group1 m \<noteq> [] then Some (trim (group1 m)) else None)"

text \<open>The \<^verbatim>\<open>finally\<close> block; \<open>v\<close> is the captured \<open>isMadScientistVoiceOn\<close>.\<close>

definition streamFinally :: "host \<Rightarrow> bool \<Rightarrow> state \<Rightarrow> state" where
  "streamFinally h v s =
     (let s' = (if v
                then (case voiceOverText (currentModelMessage s) of
                        None \<Rightarrow> s
                      | Some textToSpeak \<Rightarrow> speak h textToSpeak s)
                else s)
      in s'\<lparr>isStreaming := False, sendPending := None\<rparr>)"

text \<open>
  One whole call of \<open>handleSendMessage\<close>, with the fragments that the stream delivers
  and the way it ends (a failure to open the stream is a failure after no fragment).
\<close>

definition handleSendMessage :: "host \<Rightarrow> string list \<Rightarrow> streamEnd \<Rightarrow> state \<Rightarrow> state" where
  "handleSendMessage h fragments e s =
     (if \<not> sendGuard s then s
      else (let s1 = foldl (\<lambda>t f. deliver f t) (sendStart s) fragments;
                s2 = (case e of Exhausted \<Rightarrow> s1 | Failed \<Rightarrow> streamError s1)
            in streamFinally h (isMadScientistVoiceOn s) s2))"

section \<open>Rendering a model message\<close>

definition displayContent :: "string \<Rightarrow> string" where
  "displayContent c = trim (replaceRx voiceOverRx c)"

record rendered =
  explanationText :: string
  latexShown :: "string option"
  mathmlShown :: "string option"
  descShown :: "string option"

text \<open>\<^verbatim>\<open>Math.min\<close> over positions, \<open>None\<close> standing for \<^verbatim>\<open>Infinity\<close>.\<close>

fun minInf :: "int option \<Rightarrow> int option \<Rightarrow> int option" where
  "minInf None y = y"
| "minInf (Some a) None = Some a"
| "minInf (Some a) (Some b) = Some (min a b)"

definition matchPos :: "string \<Rightarrow> rxMatch option \<Rightarrow> int option" where
  "matchPos d m = (case m of None \<Rightarrow> None | Some r \<Rightarrow> Some (indexOf d (whole r)))"

definition ModelMessageContent :: "string \<Rightarrow> rendered" where
  "ModelMessageContent c =
     (let d = displayContent c;
          latexMatch = matchRx latexRx d;
          mathmlMatch = matchRx mathmlRx d;
          descMatch = matchRx descRx d;
          firstFormulaIndex =
            minInf (matchPos d latexMatch) (minInf (matchPos d mathmlMatch) (matchPos d descMatch))
      in \<lparr>explanationText =
             (case firstFormulaIndex of None \<Rightarrow> d | Some k \<Rightarrow> trim (substring0 d k)),
          latexShown = map_option group1 latexMatch,
          mathmlShown = map_option group1 mathmlMatch,
          descShown = map_option group1 descMatch\<rparr>)"

text \<open>
  The positions at which the labelled sections of a display text start: where the
  regular expressions of the LaTeX formula, the MathML block and the plain description
  match.
\<close>

definition sectionStarts :: "string \<Rightarrow> nat list" where
  "sectionStarts d =
     concat (map (\<lambda>p. case matchRx p d of None \<Rightarrow> [] | Some m \<Rightarrow> [index m])
               [latexRx, mathmlRx, descRx])"

section \<open>The component as a transition system\<close>

text \<open>
  The events of the single execution context: the completion of the key check, the
  session effect, a click on the key button and the completion of its dialog, a click
  on the voice button, typing, a submission of the form, a fragment of the stream and
  its end. The key button is rendered in the state \<open>Needed\<close> only and the form in the
  state \<open>Ready\<close> only; the input field is disabled without a session, while streaming
  and while initializing. An event that cannot happen leaves the state as it is.
\<close>

datatype event =
    CheckDone "bool outcome"
  | InitEffect createOutcome
  | ClickSelectKey
  | SelectKeyDone "unit outcome"
  | ToggleVoice
  | ChangeInput string
  | Submit
  | Chunk string
  | StreamDone streamEnd

fun step :: "host \<Rightarrow> state \<Rightarrow> event \<Rightarrow> state" where
  "step h s (CheckDone q) =
     (if checkPending s then (checkKeyManagementService h q s)\<lparr>checkPending := False\<rparr> else s)"
| "step h s (InitEffect oc) = initEffect h oc s"
| "step h s ClickSelectKey =
     (if keyStatus s = Needed
      then (if aistudio h then s\<lparr>selectKeyPending := Suc (selectKeyPending s)\<rparr>
            else handleSelectKey Rejected s)
      else s)"
| "step h s (SelectKeyDone oc) =
     (if 0 < selectKeyPending s
      then (handleSelectKey oc s)\<lparr>selectKeyPending := selectKeyPending s - 1\<rparr>
      else s)"
| "step h s ToggleVoice = toggleVoiceMode h s"
| "step h s (ChangeInput t) =
     (if keyStatus s = Ready \<and> \<not> (chat s = None \<or> isStreaming s \<or> isInitializing s)
      then s\<lparr>inputValue := t\<rparr> else s)"
| "step h s Submit = (if keyStatus s = Ready \<and> sendGuard s then sendStart s else s)"
| "step h s (Chunk f) = (if sendPending s \<noteq> None then deliver f s else s)"
| "step h s (StreamDone e) =
     (case sendPending s of
        None \<Rightarrow> s
      | Some v \<Rightarrow> streamFinally h v (case e of Exhausted \<Rightarrow> s | Failed \<Rightarrow> streamError s))"

definition run :: "host \<Rightarrow> event list \<Rightarrow> state" where
  "run h es = foldl (step h) initial es"

text \<open>The fragments delivered by a sequence of events, and the events that end a stream.\<close>

fun fragmentsOf :: "event list \<Rightarrow> string list" where
  "fragmentsOf [] = []"
| "fragmentsOf (Chunk f # es) = f # fragmentsOf es"
| "fragmentsOf (e # es) = fragmentsOf es"

fun endsStream :: "event \<Rightarrow> bool" where
  "endsStream (StreamDone e) = True"
| "endsStream e = False"

text \<open>
  A sequence of events in which the key dialog is never requested while an earlier
  request is still open.
\<close>

fun serial :: "host \<Rightarrow> state \<Rightarrow> event list \<Rightarrow> bool" where
  "serial h s [] = True"
| "serial h s (e # es) =
     ((e = ClickSelectKey \<longrightarrow> selectKeyPending s = 0) \<and> serial h (step h s e) es)"

section \<open>The basic variant of the component\<close>

text \<open>
  The variant without key selection and voice mode. Its flag \<open>isLoading\<close> is set while
  the session is being created and while a reply is streaming. (On an empty transcript
  the two updates of the last message would raise; the placeholder appended by the
  submission keeps the transcript non-empty, and the model leaves an empty transcript
  as it is.)
\<close>

record basicState =
  chatB :: "Chat option"
  messagesB :: "Message list"
  inputValueB :: string
  isLoading :: bool
  sentB :: "string list"

definition appendLast :: "string \<Rightarrow> basicState \<Rightarrow> basicState" where
  "appendLast chunkText s =
     (let prev = messagesB s
      in s\<lparr>messagesB :=
             (if prev = [] then prev
              else prev[length prev - 1 :=
                        (last prev)\<lparr>content := content (last prev) @ chunkText\<rparr>])\<rparr>)"

definition streamErrorBasic :: "basicState \<Rightarrow> basicState" where
  "streamErrorBasic s =
     (let prev = messagesB s
      in s\<lparr>messagesB :=
             (if prev = [] then prev
              else prev[length prev - 1 := (last prev)\<lparr>content := errorMessage\<rparr>])\<rparr>)"

definition handleSendMessageBasic :: "string list \<Rightarrow> streamEnd \<Rightarrow> basicState \<Rightarrow> basicState" where
  "handleSendMessageBasic fragments e s =
     (if trim (inputValueB s) = [] \<or> chatB s = None \<or> isLoading s then s
      else (let userMessageContent = inputValueB s;
                s0 = s\<lparr>messagesB := messagesB s @
                         [\<lparr>role = User, content = userMessageContent\<rparr>,
                          \<lparr>role = Model, content = []\<rparr>],
                       inputValueB := [],
                       isLoading := True,
                       sentB := sentB s @ [userMessageContent]\<rparr>;
                s1 = foldl (\<lambda>t f. appendLast f t) s0 fragments;
                s2 = (case e of Exhausted \<Rightarrow> s1 | Failed \<Rightarrow> streamErrorBasic s1)
            in s2\<lparr>isLoading := False\<rparr>))"

section \<open>Auxiliary definitions for the proofs\<close>

text \<open>
  The texts that a pattern matches as a whole: the declarative reading of the regular
  expressions, against which the matcher is justified.
\<close>

fun lang :: "rx list \<Rightarrow> string \<Rightarrow> bool" where
  "lang [] w = (w = [])"
| "lang (Lit l # p) w = (prefix l w \<and> lang p (drop (length l) w))"
| "lang (Spaces # p) w =
     (\<exists>k\<le>length w. (\<forall>c\<in>set (take k w). isWhiteSpace c) \<and> lang p (drop k w))"
| "lang (AnyGreedy # p) w = (\<exists>k\<le>length w. lang p (drop k w))"
| "lang (AnyLazy # p) w = (\<exists>k\<le>length w. lang p (drop k w))"
| "lang (GroupOpen # p) w = lang p w"
| "lang (GroupClose # p) w = lang p w"

text \<open>
  The state of the component while a reply is streaming: the transcript is \<open>base\<close>
  followed by the model turn with the text accumulated so far.
\<close>

definition streamingInv ::
  "Message list \<Rightarrow> string list \<Rightarrow> bool \<Rightarrow> string \<Rightarrow> state \<Rightarrow> bool" where
  "streamingInv base out v acc t =
     (isStreaming t \<and> chat t \<noteq> None \<and> sendPending t = Some v \<and> sent t = out \<and>
      messages t = base @ [\<lparr>role = Model, content = acc\<rparr>] \<and> currentModelMessage t = acc)"

text \<open>What holds of the key state as long as the requests for the key dialog do not overlap.\<close>

definition serialInv :: "state \<Rightarrow> bool" where
  "serialInv s =
     ((checkPending s \<longrightarrow> keyStatus s = Checking \<and> chat s = None \<and> selectKeyPending s = 0) \<and>
      (chat s \<noteq> None \<longrightarrow> keyStatus s = Ready \<and> selectKeyPending s = 0) \<and>
      (0 < selectKeyPending s \<longrightarrow> keyStatus s = Needed \<and> selectKeyPending s = 1))"

text \<open>A host with key management and a speech engine, and one with neither.\<close>

definition aiStudioHost :: host where
  "aiStudioHost = \<lparr>aistudio = True, hasSelectedApiKeyFn = True, speechSynthesis = True\<rparr>"

definition plainHost :: host where
  "plainHost = \<lparr>aistudio = False, hasSelectedApiKeyFn = False, speechSynthesis = False\<rparr>"

text \<open>The component after a successful start, with a question typed into the input field.\<close>

definition askingState :: state where
  "askingState =
     \<lparr>keyStatus = Ready, isInitializing = False, keyError = None, chat = Some 1,
      messages = [\<lparr>role = Model, content = readyGreeting\<rparr>], inputValue = ''What is P(A|B)?'',
      isStreaming = False, isMadScientistVoiceOn = False, currentModelMessage = [],
      sent = [], speech = [], checkPending = False, selectKeyPending = 0,
      sendPending = None\<rparr>"

definition blankBasicState :: basicState where
  "blankBasicState =
     \<lparr>chatB = Some 1, messagesB = [], inputValueB = ''  '', isLoading = False, sentB = []\<rparr>"

section \<open>Facts about strings\<close>

lemma trim_Nil_iff: "trim s = [] \<longleftrightarrow> (\<forall>c\<in>set s. isWhiteSpace c)"
proof
  assume "trim s = []"
  then have "\<forall>c\<in>set (rev (dropWhile isWhiteSpace s)). isWhiteSpace c"
    by (simp add: trim_def)
  then have "dropWhile isWhiteSpace s = []"
    by (metis hd_dropWhile list.set_sel(1) set_rev)
  then show "\<forall>c\<in>set s. isWhiteSpace c" by simp
next
  assume "\<forall>c\<in>set s. isWhiteSpace c"
  then show "trim s = []" by (auto simp: trim_def dest: set_dropWhileD)
qed

lemma includesStr_sublist: "includesStr s sub \<longleftrightarrow> sublist sub s"
  by (induction s) (auto simp: sublist_Cons_right)

lemma sublist_chain: "sublist xs ys \<Longrightarrow> sublist ys zs \<Longrightarrow> sublist xs zs"
  by (rule sublist_order.order_trans)

lemma sublist_iff_prefix_drop: "sublist l s \<longleftrightarrow> (\<exists>j\<le>length s. prefix l (drop j s))"
proof
  assume "sublist l s"
  then obtain ps ss where "s = ps @ l @ ss" by (auto simp: sublist_def)
  then have "length ps \<le> length s \<and> prefix l (drop (length ps) s)" by simp
  then show "\<exists>j\<le>length s. prefix l (drop j s)" by blast
next
  assume "\<exists>j\<le>length s. prefix l (drop j s)"
  then obtain j where "prefix l (drop j s)" by blast
  then have "sublist l (drop j s)" by (rule prefix_imp_sublist)
  then show "sublist l s" using sublist_drop sublist_chain by blast
qed

lemma trimEnd_prefix: "prefix (rev (dropWhile P (rev xs))) xs"
  by (metis prefix_def rev_append rev_rev_ident takeWhile_dropWhile_id)

lemma trim_sublist: "sublist (trim s) s"
proof -
  have "sublist (trim s) (dropWhile isWhiteSpace s)"
    unfolding trim_def by (rule prefix_imp_sublist[OF trimEnd_prefix])
  then show ?thesis using sublist_dropWhile sublist_chain by blast
qed

lemma dropWhile_id: "xs = [] \<or> \<not> P (hd xs) \<Longrightarrow> dropWhile P xs = xs"
  by (cases xs) auto

lemma trim_start: "trim s = [] \<or> \<not> isWhiteSpace (hd (trim s))"
proof (cases "trim s = []")
  case True
  then show ?thesis by simp
next
  case False
  let ?d = "dropWhile isWhiteSpace s"
  from False have "\<not> (\<forall>c\<in>set s. isWhiteSpace c)" by (simp add: trim_Nil_iff)
  then have d: "?d \<noteq> []" by simp
  from trimEnd_prefix[of isWhiteSpace ?d] obtain z where z: "?d = trim s @ z"
    by (auto simp: prefix_def trim_def)
  with False have "hd (trim s) = hd ?d" by (metis hd_append2)
  moreover from d have "\<not> isWhiteSpace (hd ?d)" by (rule hd_dropWhile)
  ultimately show ?thesis by simp
qed

lemma trim_idem: "trim (trim s) = trim s"
proof -
  have "dropWhile isWhiteSpace (trim s) = trim s" by (rule dropWhile_id[of "trim s" isWhiteSpace, OF trim_start])
  then have "trim (trim s) = rev (dropWhile isWhiteSpace (rev (trim s)))"
    by (simp add: trim_def)
  also have "\<dots> = trim s" by (simp add: trim_def)
  finally show ?thesis .
qed

lemma trim_snoc: "isWhiteSpace c \<Longrightarrow> trim (s @ [c]) = trim s"
proof (cases "\<forall>a\<in>set s. isWhiteSpace a")
  case True
  assume "isWhiteSpace c"
  with True have "trim (s @ [c]) = []" "trim s = []" by (simp_all add: trim_Nil_iff)
  then show ?thesis by simp
next
  case False
  assume c: "isWhiteSpace c"
  from False have "dropWhile isWhiteSpace (s @ [c]) = dropWhile isWhiteSpace s @ [c]"
    by auto
  with c show ?thesis by (simp add: trim_def)
qed

lemma trim_dropWhile: "trim (dropWhile isWhiteSpace s) = trim s"
  by (simp add: trim_def)

lemma trim_id:
  assumes "s = [] \<or> \<not> isWhiteSpace (hd s) \<and> \<not> isWhiteSpace (last s)"
  shows "trim s = s"
proof (cases "s = []")
  case True
  then show ?thesis by (simp add: trim_def)
next
  case False
  with assms have h: "\<not> isWhiteSpace (hd s)" and l: "\<not> isWhiteSpace (last s)" by simp_all
  from h False have "dropWhile isWhiteSpace s = s" by (intro dropWhile_id) simp
  moreover from l False have "dropWhile isWhiteSpace (rev s) = rev s"
    by (intro dropWhile_id) (simp add: hd_rev)
  ultimately show ?thesis by (simp add: trim_def)
qed

section \<open>The matcher against the declarative reading\<close>

text \<open>
  The matcher is sound and complete for \<open>lang\<close>: what it consumes is a text of the
  pattern, and it succeeds on every input that starts with such a text.
\<close>

lemma lang_skip_char:
  "lang (AnyGreedy # p) w \<Longrightarrow> lang (AnyGreedy # p) (c # w)"
  "lang (AnyLazy # p) w \<Longrightarrow> lang (AnyLazy # p) (c # w)"
  "isWhiteSpace c \<Longrightarrow> lang (Spaces # p) w \<Longrightarrow> lang (Spaces # p) (c # w)"
proof -
  show "lang (AnyGreedy # p) w \<Longrightarrow> lang (AnyGreedy # p) (c # w)"
  proof -
    assume "lang (AnyGreedy # p) w"
    then obtain k where "k \<le> length w" "lang p (drop k w)" by auto
    then have "Suc k \<le> length (c # w) \<and> lang p (drop (Suc k) (c # w))" by simp
    then show ?thesis unfolding lang.simps by blast
  qed
  show "lang (AnyLazy # p) w \<Longrightarrow> lang (AnyLazy # p) (c # w)"
  proof -
    assume "lang (AnyLazy # p) w"
    then obtain k where "k \<le> length w" "lang p (drop k w)" by auto
    then have "Suc k \<le> length (c # w) \<and> lang p (drop (Suc k) (c # w))" by simp
    then show ?thesis unfolding lang.simps by blast
  qed
  show "isWhiteSpace c \<Longrightarrow> lang (Spaces # p) w \<Longrightarrow> lang (Spaces # p) (c # w)"
  proof -
    assume c: "isWhiteSpace c" and "lang (Spaces # p) w"
    then obtain k where "k \<le> length w" "\<forall>c\<in>set (take k w). isWhiteSpace c" "lang p (drop k w)"
      by auto
    with c have "Suc k \<le> length (c # w) \<and> (\<forall>a\<in>set (take (Suc k) (c # w)). isWhiteSpace a) \<and>
       lang p (drop (Suc k) (c # w))" by simp
    then show ?thesis unfolding lang.simps by blast
  qed
qed

lemma lang_skip_none:
  "lang p w \<Longrightarrow> lang (AnyGreedy # p) w"
  "lang p w \<Longrightarrow> lang (AnyLazy # p) w"
  "lang p w \<Longrightarrow> lang (Spaces # p) w"
  by (auto intro: exI[of _ 0])

lemma rxm_sound: "rxm p t = Some (e, g, c) \<Longrightarrow> \<exists>w. t = w @ e \<and> lang p w"
proof (induction p t arbitrary: e g c rule: rxm.induct)
  case (1 s)
  then show ?case by simp
next
  case (2 l p s)
  then have pre: "prefix l s" and r: "rxm p (drop (length l) s) = Some (e, g, c)"
    by (auto split: if_splits)
  from 2(1)[OF pre r] obtain w where w: "drop (length l) s = w @ e" "lang p w" by blast
  from pre obtain z where z: "s = l @ z" by (auto simp: prefix_def)
  with w have "s = (l @ w) @ e \<and> lang (Lit l # p) (l @ w)" by simp
  then show ?case by blast
next
  case (3 p)
  from 3(2) have "rxm p [] = Some (e, g, c)" by simp
  from 3(1)[OF this] obtain w where "[] = w @ e" "lang p w" by blast
  then show ?case using lang_skip_none(3) by blast
next
  case (4 p c' cs)
  show ?case
  proof (cases "isWhiteSpace c'")
    case True
    show ?thesis
    proof (cases "rxm (Spaces # p) cs")
      case None
      with True 4(4) have "rxm p (c' # cs) = Some (e, g, c)" by simp
      from 4(2)[OF True None this] show ?thesis using lang_skip_none(3) by blast
    next
      case (Some r)
      with True 4(4) have "rxm (Spaces # p) cs = Some (e, g, c)" by simp
      from 4(1)[OF True this] obtain w where "cs = w @ e" "lang (Spaces # p) w" by blast
      then have "c' # cs = (c' # w) @ e \<and> lang (Spaces # p) (c' # w)"
        using lang_skip_char(3)[OF True] by simp
      then show ?thesis by blast
    qed
  next
    case False
    with 4(4) have "rxm p (c' # cs) = Some (e, g, c)" by simp
    from 4(3)[OF False this] show ?thesis using lang_skip_none(3) by blast
  qed
next
  case (5 p)
  from 5(2) have "rxm p [] = Some (e, g, c)" by simp
  from 5(1)[OF this] obtain w where "[] = w @ e" "lang p w" by blast
  then show ?case using lang_skip_none(1) by blast
next
  case (6 p c' cs)
  show ?case
  proof (cases "rxm (AnyGreedy # p) cs")
    case None
    with 6(3) have "rxm p (c' # cs) = Some (e, g, c)" by simp
    from 6(2)[OF None this] show ?thesis using lang_skip_none(1) by blast
  next
    case (Some r)
    with 6(3) have "rxm (AnyGreedy # p) cs = Some (e, g, c)" by simp
    from 6(1)[OF this] obtain w where "cs = w @ e" "lang (AnyGreedy # p) w" by blast
    then have "c' # cs = (c' # w) @ e \<and> lang (AnyGreedy # p) (c' # w)"
      using lang_skip_char(1) by simp
    then show ?thesis by blast
  qed
next
  case (7 p)
  from 7(2) have "rxm p [] = Some (e, g, c)" by simp
  from 7(1)[OF this] obtain w where "[] = w @ e" "lang p w" by blast
  then show ?case using lang_skip_none(2) by blast
next
  case (8 p c' cs)
  show ?case
  proof (cases "rxm p (c' # cs)")
    case None
    with 8(3) have "rxm (AnyLazy # p) cs = Some (e, g, c)" by simp
    from 8(2)[OF None this] obtain w where "cs = w @ e" "lang (AnyLazy # p) w" by blast
    then have "c' # cs = (c' # w) @ e \<and> lang (AnyLazy # p) (c' # w)"
      using lang_skip_char(2) by simp
    then show ?thesis by blast
  next
    case (Some r)
    with 8(3) have "rxm p (c' # cs) = Some (e, g, c)" by simp
    from 8(1)[OF this] show ?thesis using lang_skip_none(2) by blast
  qed
next
  case (9 p s)
  then obtain g' where "rxm p s = Some (e, g', c)" by (auto split: option.splits)
  from 9(1)[OF this] show ?case by simp
next
  case (10 p s)
  then obtain c' where "rxm p s = Some (e, g, c')" by (auto split: option.splits)
  from 10(1)[OF this] show ?case by simp
qed

lemma rxm_complete: "t = w @ r \<Longrightarrow> lang p w \<Longrightarrow> rxm p t \<noteq> None"
proof (induction p t arbitrary: w r rule: rxm.induct)
  case (1 s)
  then show ?case by simp
next
  case (2 l p s)
  then have pre: "prefix l w" and rest: "lang p (drop (length l) w)" by simp_all
  from pre 2(2) have ps: "prefix l s" by (auto simp: prefix_def)
  from pre 2(2) have "drop (length l) s = drop (length l) w @ r" by (auto simp: prefix_def)
  from 2(1)[OF ps this rest] ps show ?case by simp
next
  case (3 p)
  then have "w = []" "r = []" by simp_all
  with 3(3) have "lang p []" by simp
  from 3(1)[of "[]" "[]", OF _ this] show ?case by simp
next
  case (4 p c cs)
  from 4(5) obtain k where k: "k \<le> length w" "\<forall>a\<in>set (take k w). isWhiteSpace a"
    "lang p (drop k w)" by auto
  show ?case
  proof (cases k)
    case 0
    with k have lw: "lang p w" by simp
    show ?thesis
    proof (cases "isWhiteSpace c")
      case True
      show ?thesis
      proof (cases "rxm (Spaces # p) cs")
        case None
        from 4(2)[OF True None 4(4) lw] True None show ?thesis by simp
      next
        case (Some x)
        with True show ?thesis by simp
      qed
    next
      case False
      from 4(3)[OF False 4(4) lw] False show ?thesis by simp
    qed
  next
    case (Suc k')
    with k(1) obtain a w' where w: "w = a # w'" by (cases w) auto
    with 4(4) have ac: "a = c" and cs: "cs = w' @ r" by simp_all
    from k Suc w ac have ws: "isWhiteSpace c" by simp
    from k Suc w have "k' \<le> length w' \<and> (\<forall>a\<in>set (take k' w'). isWhiteSpace a) \<and>
      lang p (drop k' w')" by simp
    then have "lang (Spaces # p) w'" unfolding lang.simps by blast
    from 4(1)[OF ws cs this] ws show ?thesis by auto
  qed
next
  case (5 p)
  then have "w = []" "r = []" by simp_all
  with 5(3) have "lang p []" by simp
  from 5(1)[of "[]" "[]", OF _ this] show ?case by simp
next
  case (6 p c cs)
  from 6(4) obtain k where k: "k \<le> length w" "lang p (drop k w)" by auto
  show ?case
  proof (cases k)
    case 0
    with k have lw: "lang p w" by simp
    show ?thesis
    proof (cases "rxm (AnyGreedy # p) cs")
      case None
      from 6(2)[OF None 6(3) lw] None show ?thesis by simp
    next
      case (Some x)
      then show ?thesis by simp
    qed
  next
    case (Suc k')
    with k(1) obtain a w' where w: "w = a # w'" by (cases w) auto
    with 6(3) have cs: "cs = w' @ r" by simp
    from k Suc w have "k' \<le> length w' \<and> lang p (drop k' w')" by simp
    then have "lang (AnyGreedy # p) w'" unfolding lang.simps by blast
    from 6(1)[OF cs this] show ?thesis by auto
  qed
next
  case (7 p)
  then have "w = []" "r = []" by simp_all
  with 7(3) have "lang p []" by simp
  from 7(1)[of "[]" "[]", OF _ this] show ?case by simp
next
  case (8 p c cs)
  from 8(4) obtain k where k: "k \<le> length w" "lang p (drop k w)" by auto
  show ?case
  proof (cases "rxm p (c # cs)")
    case (Some x)
    then show ?thesis by simp
  next
    case None
    show ?thesis
    proof (cases k)
      case 0
      with k have "lang p w" by simp
      from 8(1)[OF 8(3) this] None show ?thesis by simp
    next
      case (Suc k')
      with k(1) obtain a w' where w: "w = a # w'" by (cases w) auto
      with 8(3) have cs: "cs = w' @ r" by simp
      from k Suc w have "k' \<le> length w' \<and> lang p (drop k' w')" by simp
      then have "lang (AnyLazy # p) w'" unfolding lang.simps by blast
      from 8(2)[OF None cs this] None show ?thesis by simp
    qed
  qed
next
  case (9 p s)
  then have "rxm p s \<noteq> None" by simp
  then show ?case by (auto split: option.splits)
next
  case (10 p s)
  then have "rxm p s \<noteq> None" by simp
  then show ?case by (auto split: option.splits)
qed

text \<open>What a successful search returns, and when a search fails.\<close>

lemma rxSearch_Some:
  "rxSearch p s i = Some m \<Longrightarrow>
   \<exists>j e g c. j \<le> length s \<and> index m = i + j \<and> rxm p (drop j s) = Some (e, g, c) \<and>
     whole m = take (length (drop j s) - length e) (drop j s) \<and>
     group1 m = take (length g - length c) g \<and>
     (\<forall>k<j. rxm p (drop k s) = None)"
proof (induction s arbitrary: i)
  case Nil
  then obtain e g c where "rxm p [] = Some (e, g, c)"
    "m = \<lparr>index = i, whole = [], group1 = take (length g - length c) g\<rparr>"
    by (auto split: option.splits)
  then show ?case by (intro exI[of _ 0]) auto
next
  case (Cons a s)
  show ?case
  proof (cases "rxm p (a # s)")
    case None
    with Cons.prems have "rxSearch p s (Suc i) = Some m" by simp
    from Cons.IH[OF this] obtain j e g c where j: "j \<le> length s" "index m = Suc i + j"
      "rxm p (drop j s) = Some (e, g, c)"
      "whole m = take (length (drop j s) - length e) (drop j s)"
      "group1 m = take (length g - length c) g" "\<forall>k<j. rxm p (drop k s) = None" by blast
    have "\<forall>k<Suc j. rxm p (drop k (a # s)) = None"
    proof (intro allI impI)
      fix k assume "k < Suc j"
      then show "rxm p (drop k (a # s)) = None" using None j(6) by (cases k) auto
    qed
    with j show ?thesis by (intro exI[of _ "Suc j"] exI[of _ e] exI[of _ g] exI[of _ c]) simp
  next
    case (Some x)
    obtain e g c where x: "x = (e, g, c)" by (cases x) auto
    with Some Cons.prems
    have "m = \<lparr>index = i, whole = take (length (a # s) - length e) (a # s),
                group1 = take (length g - length c) g\<rparr>" by simp
    with Some x show ?thesis by (intro exI[of _ 0] exI[of _ e] exI[of _ g] exI[of _ c]) simp
  qed
qed

lemma rxSearch_first:
  "j \<le> length s \<Longrightarrow> rxm p (drop j s) = Some (e, g, c) \<Longrightarrow>
   \<forall>k<j. rxm p (drop k s) = None \<Longrightarrow>
   rxSearch p s i =
     Some \<lparr>index = i + j, whole = take (length (drop j s) - length e) (drop j s),
           group1 = take (length g - length c) g\<rparr>"
proof (induction s arbitrary: i j)
  case Nil
  then show ?case by simp
next
  case (Cons a s)
  show ?case
  proof (cases j)
    case 0
    with Cons.prems show ?thesis by simp
  next
    case (Suc j')
    with Cons.prems have n: "rxm p (a # s) = None" by force
    from Cons.prems Suc have "\<forall>k<j'. rxm p (drop k s) = None" by force
    moreover from Cons.prems(1,2) Suc have "j' \<le> length s" "rxm p (drop j' s) = Some (e, g, c)"
      by simp_all
    ultimately have "rxSearch p s (Suc i) =
      Some \<lparr>index = Suc i + j', whole = take (length (drop j' s) - length e) (drop j' s),
           group1 = take (length g - length c) g\<rparr>"
      by (intro Cons.IH)
    with Suc n show ?thesis by simp
  qed
qed

lemma rxSearch_None:
  "rxSearch p s i = None \<longleftrightarrow> (\<forall>j\<le>length s. rxm p (drop j s) = None)"
proof (induction s arbitrary: i)
  case Nil
  then show ?case by (auto split: option.splits)
next
  case (Cons a s)
  show ?case
  proof (cases "rxm p (a # s)")
    case None
    have "(\<forall>j\<le>length (a # s). rxm p (drop j (a # s)) = None) \<longleftrightarrow>
          (\<forall>j\<le>length s. rxm p (drop j s) = None)"
    proof
      assume h: "\<forall>j\<le>length (a # s). rxm p (drop j (a # s)) = None"
      show "\<forall>j\<le>length s. rxm p (drop j s) = None"
      proof (intro allI impI)
        fix j assume "j \<le> length s"
        with h[rule_format, of "Suc j"] show "rxm p (drop j s) = None" by simp
      qed
    next
      assume h: "\<forall>j\<le>length s. rxm p (drop j s) = None"
      show "\<forall>j\<le>length (a # s). rxm p (drop j (a # s)) = None"
      proof (intro allI impI)
        fix j assume "j \<le> length (a # s)"
        then show "rxm p (drop j (a # s)) = None" using None h by (cases j) auto
      qed
    qed
    with None Cons.IH[of "Suc i"] show ?thesis by simp
  next
    case (Some x)
    then have "rxSearch p (a # s) i \<noteq> None" by (auto split: prod.splits)
    moreover have "\<not> (\<forall>j\<le>length (a # s). rxm p (drop j (a # s)) = None)"
    proof
      assume h: "\<forall>j\<le>length (a # s). rxm p (drop j (a # s)) = None"
      from h[rule_format, of 0] Some show False by simp
    qed
    ultimately show ?thesis by blast
  qed
qed

lemma indexOfFrom_first:
  "j \<le> length s \<Longrightarrow> prefix w (drop j s) \<Longrightarrow> \<forall>k<j. \<not> prefix w (drop k s) \<Longrightarrow>
   indexOfFrom s w i = int (i + j)"
proof (induction s arbitrary: i j)
  case Nil
  then show ?case by simp
next
  case (Cons a s)
  show ?case
  proof (cases j)
    case 0
    with Cons.prems show ?thesis by simp
  next
    case (Suc j')
    with Cons.prems have n: "\<not> prefix w (a # s)" by force
    from Cons.prems Suc have "\<forall>k<j'. \<not> prefix w (drop k s)" by force
    moreover from Cons.prems(1,2) Suc have "j' \<le> length s" "prefix w (drop j' s)" by simp_all
    ultimately have "indexOfFrom s w (Suc i) = int (Suc i + j')" by (intro Cons.IH)
    with Suc n show ?thesis by simp
  qed
qed

text \<open>The position of the matched text, found again by \<open>indexOf\<close>, is the position of the match.\<close>

lemma indexOf_whole:
  assumes "matchRx p s = Some m"
  shows "indexOf s (whole m) = int (index m)"
proof -
  from rxSearch_Some[OF assms[unfolded matchRx_def]] obtain j e g c where
    j: "j \<le> length s" "index m = j" "rxm p (drop j s) = Some (e, g, c)"
       "whole m = take (length (drop j s) - length e) (drop j s)"
       "\<forall>k<j. rxm p (drop k s) = None" by auto
  from rxm_sound[OF j(3)] obtain w where w: "drop j s = w @ e" "lang p w" by blast
  with j(4) have wm: "whole m = w" by simp
  have pre: "prefix w (drop j s)" using w by simp
  have "\<forall>k<j. \<not> prefix w (drop k s)"
  proof (intro allI impI notI)
    fix k assume "k < j" and "prefix w (drop k s)"
    then obtain r where "drop k s = w @ r" by (auto simp: prefix_def)
    from rxm_complete[OF this w(2)] j(5) \<open>k < j\<close> show False by simp
  qed
  from indexOfFrom_first[OF j(1) pre this, of 0] j(2) wm show ?thesis
    by (simp add: indexOf_def)
qed

subsection \<open>A label, white space and the rest of the text\<close>

lemma rxm_rest: "rxm [AnyGreedy, GroupClose] t = Some ([], [], [])"
  by (induction t) simp_all

lemma rxm_spaces_rest:
  "rxm [Spaces, GroupOpen, AnyGreedy, GroupClose] t = Some ([], dropWhile isWhiteSpace t, [])"
  by (induction t) (simp_all add: rxm_rest)

lemma rxm_labelled_rest:
  "rxm [Lit l, Spaces, GroupOpen, AnyGreedy, GroupClose] t =
     (if prefix l t then Some ([], dropWhile isWhiteSpace (drop (length l) t), []) else None)"
  by (simp add: rxm_spaces_rest)

lemma match_labelled_rest_None:
  "matchRx [Lit l, Spaces, GroupOpen, AnyGreedy, GroupClose] s = None \<longleftrightarrow> \<not> sublist l s"
  unfolding matchRx_def rxSearch_None sublist_iff_prefix_drop rxm_labelled_rest by auto

lemma match_labelled_rest_Some:
  assumes "matchRx [Lit l, Spaces, GroupOpen, AnyGreedy, GroupClose] s = Some m"
  shows "index m \<le> length s \<and> prefix l (drop (index m) s) \<and>
         (\<forall>k<index m. \<not> prefix l (drop k s)) \<and> whole m = drop (index m) s \<and>
         group1 m = dropWhile isWhiteSpace (drop (index m + length l) s)"
proof -
  from rxSearch_Some[OF assms[unfolded matchRx_def]] obtain j e g c where
    j: "j \<le> length s" "index m = j"
       "rxm [Lit l, Spaces, GroupOpen, AnyGreedy, GroupClose] (drop j s) = Some (e, g, c)"
       "whole m = take (length (drop j s) - length e) (drop j s)"
       "group1 m = take (length g - length c) g"
       "\<forall>k<j. rxm [Lit l, Spaces, GroupOpen, AnyGreedy, GroupClose] (drop k s) = None" by auto
  from j(3) have p: "prefix l (drop j s)" and e: "e = []" and c: "c = []"
    and g: "g = dropWhile isWhiteSpace (drop (length l) (drop j s))"
    unfolding rxm_labelled_rest by (auto split: if_splits)
  from j(6) have "\<forall>k<j. \<not> prefix l (drop k s)" unfolding rxm_labelled_rest by (auto split: if_splits)
  with j p e c g show ?thesis by (simp add: add.commute)
qed

text \<open>
  When the label does not occur in \<open>P\<close> followed by the label without its last
  character, no occurrence of the label in \<open>P @ l @ R\<close> starts inside \<open>P\<close>.
\<close>

lemma no_prefix_before:
  assumes "\<not> sublist l (P @ butlast l)" and "l \<noteq> []" and "k < length P"
  shows "\<not> prefix l (drop k (P @ l @ R))"
proof
  define Q where "Q = drop k P"
  from assms(3) have Q: "Q \<noteq> []" by (simp add: Q_def)
  have dk: "drop k (P @ l @ R) = Q @ l @ R" and dk': "drop k (P @ butlast l) = Q @ butlast l"
    using assms(3) by (simp_all add: Q_def)
  assume "prefix l (drop k (P @ l @ R))"
  then have "take (length l) (Q @ l @ R) = l"
    unfolding dk by (metis append_eq_conv_conj prefix_def)
  moreover define A where "A = Q @ butlast l"
  have "1 \<le> length Q" using Q by (cases Q) simp_all
  then have len: "length l \<le> length A"
    unfolding A_def length_append length_butlast by linarith
  have "Q @ l @ R = A @ last l # R" unfolding A_def using assms(2) by simp
  moreover have "take (length l) (A @ last l # R) = take (length l) A" using len by simp
  ultimately have "prefix l A" by (metis take_is_prefix)
  then have "sublist l (drop k (P @ butlast l))" unfolding dk' A_def by (rule prefix_imp_sublist)
  then have "sublist l (P @ butlast l)" using sublist_drop sublist_chain by blast
  with assms(1) show False by simp
qed

lemma match_labelled_rest_at:
  assumes "\<not> sublist l (P @ butlast l)" and "l \<noteq> []"
  shows "matchRx [Lit l, Spaces, GroupOpen, AnyGreedy, GroupClose] (P @ l @ R) =
           Some \<lparr>index = length P, whole = l @ R, group1 = dropWhile isWhiteSpace R\<rparr>"
proof -
  let ?s = "P @ l @ R"
  have none: "\<forall>k<length P. rxm [Lit l, Spaces, GroupOpen, AnyGreedy, GroupClose] (drop k ?s) = None"
  proof (intro allI impI)
    fix k assume "k < length P"
    from no_prefix_before[OF assms this] have "\<not> prefix l (drop k ?s)" .
    then show "rxm [Lit l, Spaces, GroupOpen, AnyGreedy, GroupClose] (drop k ?s) = None"
      by (simp only: rxm_labelled_rest if_False)
  qed
  have "rxm [Lit l, Spaces, GroupOpen, AnyGreedy, GroupClose] (drop (length P) ?s) =
          Some ([], dropWhile isWhiteSpace R, [])"
    by (simp only: rxm_labelled_rest) simp
  from rxSearch_first[OF _ this none, of 0] show ?thesis by (simp add: matchRx_def)
qed

text \<open>A label whose last character occurs nowhere else in it cannot overlap itself.\<close>

lemma no_overlap:
  assumes "\<not> sublist l X" and "last l \<notin> set (butlast l)" and "l \<noteq> []"
  shows "\<not> sublist l (X @ butlast l)"
proof
  assume "sublist l (X @ butlast l)"
  then consider "sublist l X" | "sublist l (butlast l)"
    | xs1 xs2 where "l = xs1 @ xs2" "xs2 \<noteq> []" "suffix xs1 X" "prefix xs2 (butlast l)"
    unfolding sublist_append using suffix_imp_sublist by fastforce
  then show False
  proof cases
    case 1
    with assms(1) show ?thesis by simp
  next
    case 2
    then have "length l \<le> length (butlast l)" by (rule sublist_length_le)
    then have "length l \<le> length l - 1" unfolding length_butlast .
    moreover have "1 \<le> length l" using assms(3) by (cases l) simp_all
    ultimately show ?thesis by linarith
  next
    case 3
    then have "last l = last xs2" by simp
    moreover from 3(2) have "last xs2 \<in> set xs2" by simp
    moreover from 3(4) have "set xs2 \<subseteq> set (butlast l)" by (auto simp: prefix_def)
    ultimately show ?thesis using assms(2) by auto
  qed
qed

lemma no_occurrence_across:
  assumes "\<not> sublist l X" and "a \<notin> set l" and "\<not> sublist l B"
  shows "\<not> sublist l (X @ a # B)"
proof
  assume "sublist l (X @ a # B)"
  then consider "sublist l X" | "sublist l (a # B)"
    | xs1 xs2 where "l = xs1 @ xs2" "xs2 \<noteq> []" "prefix xs2 (a # B)"
    unfolding sublist_append using suffix_imp_sublist by fastforce
  then show False
  proof cases
    case 1
    with assms(1) show ?thesis by simp
  next
    case 2
    then have "prefix l (a # B) \<or> sublist l B" by (simp add: sublist_Cons_right)
    with assms(3) have "prefix l (a # B)" by simp
    with assms(2,3) show ?thesis by (cases l) auto
  next
    case 3
    then have "a \<in> set xs2" by (cases xs2) auto
    with 3(1) assms(2) show ?thesis by simp
  qed
qed

section \<open>The reply interpreter\<close>

subsection \<open>Narration and display text\<close>

lemma replace_voiceOver:
  "replaceRx voiceOverRx s =
     (case matchRx voiceOverRx s of None \<Rightarrow> s | Some m \<Rightarrow> take (index m) s)"
proof (cases "matchRx voiceOverRx s")
  case None
  then show ?thesis by (simp add: replaceRx_def)
next
  case (Some m)
  from match_labelled_rest_Some[OF Some[unfolded voiceOverRx_def]]
  have "whole m = drop (index m) s" "index m \<le> length s" by simp_all
  with Some show ?thesis by (simp add: replaceRx_def)
qed

lemma no_marker_after_replace: "\<not> sublist ''VOICE_OVER:'' (replaceRx voiceOverRx s)"
proof (cases "matchRx voiceOverRx s")
  case None
  then have "\<not> sublist ''VOICE_OVER:'' s"
    unfolding voiceOverRx_def match_labelled_rest_None .
  with None show ?thesis by (simp add: replace_voiceOver)
next
  case (Some m)
  from match_labelled_rest_Some[OF Some[unfolded voiceOverRx_def]]
  have none: "\<forall>k<index m. \<not> prefix ''VOICE_OVER:'' (drop k s)" by simp
  have "\<not> sublist ''VOICE_OVER:'' (take (index m) s)"
  proof
    assume "sublist ''VOICE_OVER:'' (take (index m) s)"
    then obtain j where j: "j \<le> length (take (index m) s)"
      "prefix ''VOICE_OVER:'' (drop j (take (index m) s))"
      unfolding sublist_iff_prefix_drop by blast
    from j(2) have ne: "drop j (take (index m) s) \<noteq> []" by auto
    then have "j < index m" by simp
    moreover have "prefix (drop j (take (index m) s)) (drop j s)"
      by (simp add: drop_take take_is_prefix)
    with j(2) have "prefix ''VOICE_OVER:'' (drop j s)" by (rule prefix_order.trans)
    ultimately show False using none by blast
  qed
  with Some show ?thesis by (simp add: replace_voiceOver)
qed

lemma display_without_marker:
  "\<not> sublist ''VOICE_OVER:'' c \<Longrightarrow> displayContent c = trim c \<and> voiceOverText c = None"
proof -
  assume "\<not> sublist ''VOICE_OVER:'' c"
  then have "matchRx voiceOverRx c = None"
    unfolding voiceOverRx_def match_labelled_rest_None .
  then show ?thesis by (simp add: displayContent_def replace_voiceOver voiceOverText_def)
qed

lemma displayContent_idem: "displayContent (displayContent c) = displayContent c"
proof -
  have "\<not> sublist ''VOICE_OVER:'' (displayContent c)"
    unfolding displayContent_def
    using no_marker_after_replace[of c] trim_sublist sublist_chain by blast
  from display_without_marker[OF this] show ?thesis
    by (simp add: displayContent_def trim_idem)
qed

lemma match_after_line:
  assumes "\<not> sublist ''VOICE_OVER:'' X"
  shows "matchRx voiceOverRx (X @ ''\<newline>VOICE_OVER: '' @ Y) =
           Some \<lparr>index = Suc (length X), whole = ''VOICE_OVER: '' @ Y,
                 group1 = dropWhile isWhiteSpace Y\<rparr>"
proof -
  have "\<not> sublist ''VOICE_OVER:'' (X @ CHR 0x0A # butlast ''VOICE_OVER:'')"
    by (rule no_occurrence_across[OF assms]) (simp_all add: sublist_Cons_right)
  then have "\<not> sublist ''VOICE_OVER:'' ((X @ ''\<newline>'') @ butlast ''VOICE_OVER:'')" by simp
  from match_labelled_rest_at[OF this, of "CHR '' '' # Y"] show ?thesis
    by (simp add: voiceOverRx_def isWhiteSpace_def)
qed

lemma narration_after_line:
  assumes "\<not> sublist ''VOICE_OVER:'' X"
  shows "displayContent (X @ ''\<newline>VOICE_OVER: '' @ Y) = trim X"
    and "voiceOverText (X @ ''\<newline>VOICE_OVER: '' @ Y) =
           (if trim Y = [] then None else Some (trim Y))"
proof -
  note m = match_after_line[OF assms, of Y]
  have "isWhiteSpace (CHR 0x0A)" by (simp add: isWhiteSpace_def)
  then have "trim (X @ ''\<newline>'') = trim X" by (rule trim_snoc)
  with m show "displayContent (X @ ''\<newline>VOICE_OVER: '' @ Y) = trim X"
    by (simp add: displayContent_def replace_voiceOver)
  have "(dropWhile isWhiteSpace Y = []) = (trim Y = [])" by (simp add: trim_Nil_iff)
  with m show "voiceOverText (X @ ''\<newline>VOICE_OVER: '' @ Y) =
           (if trim Y = [] then None else Some (trim Y))"
    by (simp add: voiceOverText_def trim_dropWhile)
qed

text \<open>
  Claim C3, as amended. For a reply \<open>X\<close>, a line break, the marker \<open>VOICE_OVER:\<close>, a
  blank and \<open>Y\<close>, where \<open>X\<close> does not contain the marker: the display text is \<open>X\<close>
  with the white space at its ends removed, and the narration is \<open>Y\<close> with the white
  space at its ends removed, absent when nothing remains. For a reply without the marker
  there is no narration and the display text is the reply with the white space at its
  ends removed. Deriving the display text a second time changes nothing. Removing the
  white space changes nothing on a text that neither starts nor ends with white space.
\<close>

theorem narration_extraction_trims:
  "(\<not> includesStr X ''VOICE_OVER:'' \<longrightarrow>
      displayContent (X @ ''\<newline>VOICE_OVER: '' @ Y) = trim X \<and>
      voiceOverText (X @ ''\<newline>VOICE_OVER: '' @ Y) =
        (if trim Y = [] then None else Some (trim Y))) \<and>
   (\<not> includesStr c ''VOICE_OVER:'' \<longrightarrow> voiceOverText c = None \<and> displayContent c = trim c) \<and>
   displayContent (displayContent c) = displayContent c \<and>
   (t = [] \<or> \<not> isWhiteSpace (hd t) \<and> \<not> isWhiteSpace (last t) \<longrightarrow> trim t = t)"
  using narration_after_line[of X Y] display_without_marker[of c] displayContent_idem[of c]
    trim_id[of t]
  unfolding includesStr_sublist by blast

theorem narration_extraction_trims_witness:
  "\<not> includesStr ''P(A|B) is 1/2.'' ''VOICE_OVER:'' \<and>
   displayContent (''P(A|B) is 1/2.'' @ ''\<newline>VOICE_OVER: '' @ ''Behold, one half!'') =
     ''P(A|B) is 1/2.'' \<and>
   voiceOverText (''P(A|B) is 1/2.'' @ ''\<newline>VOICE_OVER: '' @ ''Behold, one half!'') =
     Some ''Behold, one half!'' \<and>
   \<not> includesStr ''One half.'' ''VOICE_OVER:'' \<and>
   voiceOverText ''One half.'' = None \<and>
   displayContent ''One half.'' = ''One half.'' \<and>
   displayContent (displayContent ''One half.'') = displayContent ''One half.'' \<and>
   \<not> isWhiteSpace (hd ''One half.'') \<and> \<not> isWhiteSpace (last ''One half.'') \<and>
   trim ''One half.'' = ''One half.''"
proof -
  have a: "\<not> includesStr ''P(A|B) is 1/2.'' ''VOICE_OVER:''" by simp
  have b: "\<not> includesStr ''One half.'' ''VOICE_OVER:''" by simp
  have c: "\<not> isWhiteSpace (hd ''One half.'')" "\<not> isWhiteSpace (last ''One half.'')"
    by (simp_all add: isWhiteSpace_def)
  have d: "trim ''P(A|B) is 1/2.'' = ''P(A|B) is 1/2.''"
    "trim ''Behold, one half!'' = ''Behold, one half!''"
    by (simp_all add: trim_def isWhiteSpace_def)
  from narration_extraction_trims[of "''P(A|B) is 1/2.''" "''Behold, one half!''"
      "''One half.''" "''One half.''"] a b c
  have "displayContent (''P(A|B) is 1/2.'' @ ''\<newline>VOICE_OVER: '' @ ''Behold, one half!'') =
          trim ''P(A|B) is 1/2.''"
    and "voiceOverText (''P(A|B) is 1/2.'' @ ''\<newline>VOICE_OVER: '' @ ''Behold, one half!'') =
          (if trim ''Behold, one half!'' = [] then None else Some (trim ''Behold, one half!''))"
    and "voiceOverText ''One half.'' = None"
    and "displayContent ''One half.'' = trim ''One half.''"
    and "displayContent (displayContent ''One half.'') = displayContent ''One half.''"
    and "trim ''One half.'' = ''One half.''"
    by blast+
  with a b c d show ?thesis by simp
qed

text \<open>
  Claim C3 as it is stated fails. The reply \<open>'' a''\<close> contains no marker, and its
  display text is \<open>''a''\<close>, not the reply unchanged. For \<open>X = ''a ''\<close> and
  \<open>Y = ''b ''\<close> the display text is \<open>''a''\<close> and the narration \<open>''b''\<close>. For
  \<open>X = ''VOICE_OVER: a''\<close> and \<open>Y = ''b''\<close> the display text is empty and the
  narration runs from \<open>a\<close> to the end.
\<close>

theorem narration_roundtrip_counterexample:
  "\<not> includesStr '' a'' ''VOICE_OVER:'' \<and> displayContent '' a'' = ''a'' \<and>
   displayContent '' a'' \<noteq> '' a'' \<and>
   displayContent (''a '' @ ''\<newline>VOICE_OVER: '' @ ''b '') = ''a'' \<and>
   voiceOverText (''a '' @ ''\<newline>VOICE_OVER: '' @ ''b '') = Some ''b'' \<and>
   displayContent (''VOICE_OVER: a'' @ ''\<newline>VOICE_OVER: '' @ ''b'') = [] \<and>
   voiceOverText (''VOICE_OVER: a'' @ ''\<newline>VOICE_OVER: '' @ ''b'') =
     Some ''a\<newline>VOICE_OVER: b''"
  by (simp add: displayContent_def replaceRx_def matchRx_def voiceOverRx_def voiceOverText_def
      trim_def isWhiteSpace_def)

subsection \<open>The narrator is never handed an empty text\<close>

lemma voiceOverText_nonempty: "voiceOverText c \<noteq> Some []"
proof (cases "matchRx voiceOverRx c")
  case None
  then show ?thesis by (simp add: voiceOverText_def)
next
  case (Some m)
  from match_labelled_rest_Some[OF Some[unfolded voiceOverRx_def]]
  obtain r where g: "group1 m = dropWhile isWhiteSpace r" by blast
  show ?thesis
  proof (cases "group1 m = []")
    case True
    with Some show ?thesis by (simp add: voiceOverText_def)
  next
    case False
    with g have "\<not> isWhiteSpace (hd (group1 m))" by (metis hd_dropWhile)
    with False have "\<not> (\<forall>a\<in>set (group1 m). isWhiteSpace a)" by (cases "group1 m") auto
    then have "trim (group1 m) \<noteq> []" by (simp add: trim_Nil_iff)
    with Some False show ?thesis by (simp add: voiceOverText_def)
  qed
qed

lemma marker_then_nothing:
  assumes "\<not> sublist ''VOICE_OVER:'' X" and "\<forall>a\<in>set W. isWhiteSpace a"
  shows "voiceOverText (X @ ''VOICE_OVER:'' @ W) = None"
proof -
  have "\<not> sublist ''VOICE_OVER:'' (X @ butlast ''VOICE_OVER:'')"
    by (rule no_overlap[OF assms(1)]) simp_all
  from match_labelled_rest_at[OF this, of W] assms(2) show ?thesis
    by (simp add: voiceOverText_def voiceOverRx_def)
qed

text \<open>
  Claim C10. \<open>speak\<close> with the empty text changes nothing: neither \<open>cancel\<close> nor
  \<open>speak\<close> is called on the engine. The text handed to \<open>speak\<close> at the end of a
  stream is never empty. When the accumulated reply is some \<open>X\<close> without the marker,
  the marker, and white space only, \<open>speak\<close> is not called and the end of the stream
  makes no call on the speech engine.
\<close>

theorem empty_narration_never_spoken:
  "speak h [] s = s \<and>
   voiceOverText c \<noteq> Some [] \<and>
   (\<not> includesStr X ''VOICE_OVER:'' \<and> (\<forall>a\<in>set W. isWhiteSpace a) \<and>
    currentModelMessage s = X @ ''VOICE_OVER:'' @ W \<longrightarrow>
      voiceOverText (currentModelMessage s) = None \<and>
      speech (streamFinally h v s) = speech s)"
  using voiceOverText_nonempty[of c] marker_then_nothing[of X W]
  unfolding includesStr_sublist
  by (auto simp: speak_def streamFinally_def Let_def)

theorem empty_narration_never_spoken_witness:
  "\<not> includesStr ''One half. '' ''VOICE_OVER:'' \<and> list_all isWhiteSpace ''  '' \<and>
   currentModelMessage (askingState\<lparr>currentModelMessage := ''One half. VOICE_OVER:  ''\<rparr>) =
     ''One half. '' @ ''VOICE_OVER:'' @ ''  '' \<and>
   speak aiStudioHost [] askingState = askingState \<and>
   voiceOverText ''VOICE_OVER: '' \<noteq> Some [] \<and>
   voiceOverText ''One half. VOICE_OVER:  '' = None \<and>
   speech (streamFinally aiStudioHost True
             (askingState\<lparr>currentModelMessage := ''One half. VOICE_OVER:  ''\<rparr>)) = []"
proof -
  let ?s = "askingState\<lparr>currentModelMessage := ''One half. VOICE_OVER:  ''\<rparr>"
  have a: "\<not> includesStr ''One half. '' ''VOICE_OVER:''" by simp
  have b: "\<forall>a\<in>set ''  ''. isWhiteSpace a" by (simp add: isWhiteSpace_def)
  have c: "currentModelMessage ?s = ''One half. '' @ ''VOICE_OVER:'' @ ''  ''" by simp
  have d: "speech ?s = []" by (simp add: askingState_def)
  from empty_narration_never_spoken[of aiStudioHost ?s "''VOICE_OVER: ''" "''One half. ''"
      "''  ''" True] a b c
  have "speak aiStudioHost [] ?s = ?s" and "voiceOverText ''VOICE_OVER: '' \<noteq> Some []"
    and "voiceOverText (currentModelMessage ?s) = None"
    and "speech (streamFinally aiStudioHost True ?s) = speech ?s"
    by blast+
  moreover have "speak aiStudioHost [] askingState = askingState" by (simp add: speak_def)
  ultimately show ?thesis using a b c d unfolding list_all_iff by simp
qed

subsection \<open>The sections of a display text\<close>

lemma rxm_Lit_no_prefix: "\<not> prefix l t \<Longrightarrow> rxm (Lit l # p) t = None"
  by simp

lemma match_Lit_absent: "\<not> sublist l s \<Longrightarrow> matchRx (Lit l # p) s = None"
  unfolding matchRx_def rxSearch_None sublist_iff_prefix_drop by auto

lemma rxm_Spaces_skip:
  "\<forall>a\<in>set W. isWhiteSpace a \<Longrightarrow> t = [] \<or> \<not> isWhiteSpace (hd t) \<Longrightarrow> rxm p t = Some r \<Longrightarrow>
   rxm (Spaces # p) (W @ t) = Some r"
proof (induction W)
  case Nil
  then show ?case by (cases t) auto
next
  case (Cons w W)
  then show ?case by simp
qed

lemma rxm_lazy_until:
  "b \<noteq> [] \<Longrightarrow> hd b \<notin> set B \<Longrightarrow>
   rxm [AnyLazy, Lit b, GroupClose] (B @ b @ R) = Some (R, R, R)"
proof (induction B)
  case Nil
  then show ?case by (cases b) simp_all
next
  case (Cons x B)
  then have "\<not> prefix b (x # B @ b @ R)" by (cases b) auto
  with Cons show ?case by simp
qed

lemma rxm_latex_block:
  assumes "\<forall>a\<in>set W. isWhiteSpace a" and "CHR ''$'' \<notin> set B"
  shows "rxm latexRx (''LaTeX Formula:'' @ W @ ''$$'' @ B @ ''$$'' @ R) =
           Some (R, ''$$'' @ B @ ''$$'' @ R, R)"
proof -
  have "rxm [AnyLazy, Lit ''$$'', GroupClose] (B @ ''$$'' @ R) = Some (R, R, R)"
    using assms(2) by (intro rxm_lazy_until) simp_all
  then have "rxm [GroupOpen, Lit ''$$'', AnyLazy, Lit ''$$'', GroupClose] (''$$'' @ B @ ''$$'' @ R) =
          Some (R, ''$$'' @ B @ ''$$'' @ R, R)" by simp
  from rxm_Spaces_skip[OF assms(1) _ this]
  have "rxm [Spaces, GroupOpen, Lit ''$$'', AnyLazy, Lit ''$$'', GroupClose]
          (W @ ''$$'' @ B @ ''$$'' @ R) = Some (R, ''$$'' @ B @ ''$$'' @ R, R)"
    by (simp add: isWhiteSpace_def)
  then show ?thesis by (simp add: latexRx_def)
qed

lemma match_latex_block:
  assumes "\<not> sublist ''LaTeX Formula:'' E" and "\<forall>a\<in>set W. isWhiteSpace a"
    and "CHR ''$'' \<notin> set B"
  shows "matchRx latexRx (E @ ''LaTeX Formula:'' @ W @ ''$$'' @ B @ ''$$'' @ R) =
           Some \<lparr>index = length E, whole = ''LaTeX Formula:'' @ W @ ''$$'' @ B @ ''$$'',
                 group1 = ''$$'' @ B @ ''$$''\<rparr>"
proof -
  define gr where "gr = ''$$'' @ B @ ''$$''"
  define wh where "wh = ''LaTeX Formula:'' @ W @ gr"
  define s where "s = E @ wh @ R"
  have s: "E @ ''LaTeX Formula:'' @ W @ ''$$'' @ B @ ''$$'' @ R = s"
    and s': "s = E @ ''LaTeX Formula:'' @ (W @ gr @ R)"
    by (simp_all add: s_def wh_def gr_def)
  have nb: "\<not> sublist ''LaTeX Formula:'' (E @ butlast ''LaTeX Formula:'')"
    by (rule no_overlap[OF assms(1)]) simp_all
  have none: "\<forall>k<length E. rxm latexRx (drop k s) = None"
  proof (intro allI impI)
    fix k assume "k < length E"
    from no_prefix_before[OF nb _ this, of "W @ gr @ R"]
    have "\<not> prefix ''LaTeX Formula:'' (drop k s)" unfolding s' by simp
    then show "rxm latexRx (drop k s) = None"
      unfolding latexRx_def by (rule rxm_Lit_no_prefix)
  qed
  have ds: "drop (length E) s = wh @ R" by (simp add: s_def)
  have "rxm latexRx (wh @ R) = Some (R, gr @ R, R)"
    using rxm_latex_block[OF assms(2,3), of R] by (simp add: wh_def gr_def)
  then have at: "rxm latexRx (drop (length E) s) = Some (R, gr @ R, R)" unfolding ds .
  have "length E \<le> length s" by (simp add: s_def)
  from rxSearch_first[OF this at none, of 0]
  have "matchRx latexRx s = Some \<lparr>index = length E, whole = wh, group1 = gr\<rparr>"
    unfolding ds by (simp add: matchRx_def)
  then show ?thesis unfolding s by (simp add: wh_def gr_def)
qed

text \<open>What a section that is found looks like.\<close>

lemma rxm_Spaces_split:
  "rxm (Spaces # p) t = Some r \<Longrightarrow>
   \<exists>W u. t = W @ u \<and> (\<forall>a\<in>set W. isWhiteSpace a) \<and> rxm p u = Some r"
proof (induction t)
  case Nil
  then have "rxm p [] = Some r" by simp
  then show ?case by (intro exI[of _ "[]"]) simp
next
  case (Cons c cs)
  have stop: "rxm p (c # cs) = Some r \<Longrightarrow> ?case"
    by (rule exI[of _ "[]"], rule exI[of _ "c # cs"]) simp
  show ?case
  proof (cases "isWhiteSpace c")
    case False
    with Cons.prems have "rxm p (c # cs) = Some r" by simp
    then show ?thesis by (rule stop)
  next
    case True
    show ?thesis
    proof (cases "rxm (Spaces # p) cs")
      case None
      with True Cons.prems have "rxm p (c # cs) = Some r" by simp
      then show ?thesis by (rule stop)
    next
      case (Some x)
      with True Cons.prems have "rxm (Spaces # p) cs = Some r" by simp
      from Cons.IH[OF this] obtain W u where
        w: "cs = W @ u" "\<forall>a\<in>set W. isWhiteSpace a" "rxm p u = Some r" by blast
      show ?thesis
        by (rule exI[of _ "c # W"], rule exI[of _ u]) (use w True in simp)
    qed
  qed
qed

lemma rxm_lazy_split:
  "rxm [AnyLazy, Lit b, GroupClose] t = Some (e, g, c) \<Longrightarrow> \<exists>B. t = B @ b @ e \<and> c = e"
proof (induction t)
  case Nil
  then have "prefix b []" and "e = drop (length b) []" and "c = e"
    by (auto split: if_splits)
  then have "[] = [] @ b @ e \<and> c = e" by simp
  then show ?case by blast
next
  case (Cons x t)
  show ?case
  proof (cases "prefix b (x # t)")
    case True
    with Cons.prems have "e = drop (length b) (x # t)" and "c = e" by auto
    with True have "x # t = [] @ b @ e \<and> c = e" by (auto simp: prefix_def)
    then show ?thesis by blast
  next
    case False
    with Cons.prems have "rxm [AnyLazy, Lit b, GroupClose] t = Some (e, g, c)" by simp
    from Cons.IH[OF this] obtain B where "t = B @ b @ e" "c = e" by blast
    then have "x # t = (x # B) @ b @ e \<and> c = e" by simp
    then show ?thesis by blast
  qed
qed

lemma rxm_block_shape:
  assumes "rxm [Lit l, Spaces, GroupOpen, Lit a, AnyLazy, Lit b, GroupClose] t = Some (e, g, c)"
  shows "\<exists>W B. t = l @ W @ a @ B @ b @ e \<and> (\<forall>x\<in>set W. isWhiteSpace x) \<and>
           g = a @ B @ b @ e \<and> c = e"
proof -
  from assms have pl: "prefix l t"
    and r1: "rxm [Spaces, GroupOpen, Lit a, AnyLazy, Lit b, GroupClose] (drop (length l) t) =
               Some (e, g, c)"
    by (auto split: if_splits)
  from rxm_Spaces_split[OF r1] obtain W u where
    u: "drop (length l) t = W @ u" "\<forall>x\<in>set W. isWhiteSpace x"
    "rxm [GroupOpen, Lit a, AnyLazy, Lit b, GroupClose] u = Some (e, g, c)" by blast
  from u(3) obtain g' where g: "g = u"
    and r2: "rxm [Lit a, AnyLazy, Lit b, GroupClose] u = Some (e, g', c)"
    by (auto split: option.splits)
  from r2 have pa: "prefix a u"
    and r3: "rxm [AnyLazy, Lit b, GroupClose] (drop (length a) u) = Some (e, g', c)"
    by (auto split: if_splits)
  from rxm_lazy_split[OF r3] obtain B where B: "drop (length a) u = B @ b @ e" "c = e" by blast
  from pa B(1) have "u = a @ B @ b @ e" by (metis append_eq_conv_conj prefix_def)
  moreover from pl u(1) have "t = l @ W @ u" by (metis append_eq_conv_conj prefix_def)
  ultimately show ?thesis using u(2) g B(2) by blast
qed

text \<open>A formula block that is found has its label, white space, and the two delimiters.\<close>

lemma block_match_shape:
  assumes "matchRx [Lit l, Spaces, GroupOpen, Lit a, AnyLazy, Lit b, GroupClose] d = Some m"
  shows "\<exists>W B R. d = take (index m) d @ l @ W @ group1 m @ R \<and>
           (\<forall>x\<in>set W. isWhiteSpace x) \<and> group1 m = a @ B @ b"
proof -
  from rxSearch_Some[OF assms[unfolded matchRx_def]] obtain j e g c where
    j: "j \<le> length d" "index m = j"
       "rxm [Lit l, Spaces, GroupOpen, Lit a, AnyLazy, Lit b, GroupClose] (drop j d) = Some (e, g, c)"
       "group1 m = take (length g - length c) g" by auto
  from rxm_block_shape[OF j(3)] obtain W B where
    s: "drop j d = l @ W @ a @ B @ b @ e" "\<forall>x\<in>set W. isWhiteSpace x"
       "g = a @ B @ b @ e" "c = e" by blast
  from j(4) s(3,4) have gm: "group1 m = a @ B @ b" by simp
  have "d = take j d @ drop j d" by simp
  with s(1) gm j(2) have "d = take (index m) d @ l @ W @ group1 m @ e" by simp
  with s(2) gm show ?thesis by blast
qed

lemma rest_match_shape:
  assumes "matchRx [Lit l, Spaces, GroupOpen, AnyGreedy, GroupClose] d = Some m"
  shows "\<exists>W. d = take (index m) d @ l @ W @ group1 m \<and> (\<forall>x\<in>set W. isWhiteSpace x)"
proof -
  from match_labelled_rest_Some[OF assms]
  have p: "prefix l (drop (index m) d)"
    and g: "group1 m = dropWhile isWhiteSpace (drop (index m + length l) d)" by simp_all
  define u where "u = drop (index m + length l) d"
  from p have "drop (index m) d = l @ u"
    unfolding u_def by (metis add.commute append_eq_conv_conj drop_drop prefix_def)
  moreover have "u = takeWhile isWhiteSpace u @ group1 m" unfolding g u_def by simp
  moreover have "d = take (index m) d @ drop (index m) d" by simp
  ultimately have "d = take (index m) d @ l @ takeWhile isWhiteSpace u @ group1 m" by simp
  moreover have "\<forall>x\<in>set (takeWhile isWhiteSpace u). isWhiteSpace x"
    by (auto dest: set_takeWhileD)
  ultimately show ?thesis by blast
qed

lemma shown_block_shape:
  assumes "map_option group1 (matchRx [Lit l, Spaces, GroupOpen, Lit a, AnyLazy, Lit b, GroupClose] d)
             = Some g"
  shows "\<exists>E W B R. d = E @ l @ W @ g @ R \<and> (\<forall>x\<in>set W. isWhiteSpace x) \<and> g = a @ B @ b"
proof -
  from assms obtain m where
    m: "matchRx [Lit l, Spaces, GroupOpen, Lit a, AnyLazy, Lit b, GroupClose] d = Some m"
    and g: "group1 m = g" by auto
  from block_match_shape[OF m] obtain W B R where
    "d = take (index m) d @ l @ W @ group1 m @ R" "\<forall>x\<in>set W. isWhiteSpace x"
    "group1 m = a @ B @ b" by blast
  then show ?thesis unfolding g
    by (intro exI[of _ "take (index m) d"] exI[of _ W] exI[of _ B] exI[of _ R]) simp
qed

lemma shown_rest_shape:
  assumes "map_option group1 (matchRx [Lit l, Spaces, GroupOpen, AnyGreedy, GroupClose] d) = Some g"
  shows "\<exists>E W. d = E @ l @ W @ g \<and> (\<forall>x\<in>set W. isWhiteSpace x)"
proof -
  from assms obtain m where
    m: "matchRx [Lit l, Spaces, GroupOpen, AnyGreedy, GroupClose] d = Some m"
    and g: "group1 m = g" by auto
  from rest_match_shape[OF m] obtain W where
    "d = take (index m) d @ l @ W @ group1 m" "\<forall>x\<in>set W. isWhiteSpace x" by blast
  then show ?thesis unfolding g
    by (intro exI[of _ "take (index m) d"] exI[of _ W]) simp
qed

lemma sections_shown_are_well_formed:
  "(latexShown (ModelMessageContent c) = Some g \<longrightarrow>
      (\<exists>E W B R. displayContent c = E @ ''LaTeX Formula:'' @ W @ g @ R \<and>
         (\<forall>x\<in>set W. isWhiteSpace x) \<and> g = ''$$'' @ B @ ''$$''))"
  "(mathmlShown (ModelMessageContent c) = Some g \<longrightarrow>
      (\<exists>E W B R. displayContent c = E @ ''MathML Formula:'' @ W @ g @ R \<and>
         (\<forall>x\<in>set W. isWhiteSpace x) \<and> g = ''<math'' @ B @ ''</math>''))"
  "(descShown (ModelMessageContent c) = Some g \<longrightarrow>
      (\<exists>E W. displayContent c = E @ ''Plain Description:'' @ W @ g \<and>
         (\<forall>x\<in>set W. isWhiteSpace x)))"
proof -
  have shown: "latexShown (ModelMessageContent c) = map_option group1 (matchRx latexRx (displayContent c))"
    "mathmlShown (ModelMessageContent c) = map_option group1 (matchRx mathmlRx (displayContent c))"
    "descShown (ModelMessageContent c) = map_option group1 (matchRx descRx (displayContent c))"
    by (simp_all add: ModelMessageContent_def Let_def)
  show "(latexShown (ModelMessageContent c) = Some g \<longrightarrow>
      (\<exists>E W B R. displayContent c = E @ ''LaTeX Formula:'' @ W @ g @ R \<and>
         (\<forall>x\<in>set W. isWhiteSpace x) \<and> g = ''$$'' @ B @ ''$$''))"
    unfolding shown(1) latexRx_def by (intro impI) (rule shown_block_shape)
  show "(mathmlShown (ModelMessageContent c) = Some g \<longrightarrow>
      (\<exists>E W B R. displayContent c = E @ ''MathML Formula:'' @ W @ g @ R \<and>
         (\<forall>x\<in>set W. isWhiteSpace x) \<and> g = ''<math'' @ B @ ''</math>''))"
    unfolding shown(2) mathmlRx_def by (intro impI) (rule shown_block_shape)
  show "(descShown (ModelMessageContent c) = Some g \<longrightarrow>
      (\<exists>E W. displayContent c = E @ ''Plain Description:'' @ W @ g \<and>
         (\<forall>x\<in>set W. isWhiteSpace x)))"
    unfolding shown(3) descRx_def by (intro impI) (rule shown_rest_shape)
qed

lemma matchPos_index: "matchPos d (matchRx p d) = map_option (\<lambda>m. int (index m)) (matchRx p d)"
  by (cases "matchRx p d") (simp_all add: matchPos_def indexOf_whole)

lemma explanation_general:
  "explanationText (ModelMessageContent c) =
     (if sectionStarts (displayContent c) = [] then displayContent c
      else trim (take (Min (set (sectionStarts (displayContent c)))) (displayContent c)))"
  unfolding ModelMessageContent_def Let_def matchPos_index sectionStarts_def substring0_def
  by (cases "matchRx latexRx (displayContent c)"; cases "matchRx mathmlRx (displayContent c)";
      cases "matchRx descRx (displayContent c)")
     (simp_all add: min_def)

lemma latex_only:
  assumes "displayContent c = E @ ''LaTeX Formula:'' @ W @ ''$$'' @ B @ ''$$'' @ R"
    and "\<not> sublist ''LaTeX Formula:'' E" and "\<forall>a\<in>set W. isWhiteSpace a"
    and "CHR ''$'' \<notin> set B"
    and "\<not> sublist ''MathML Formula:'' (displayContent c)"
    and "\<not> sublist ''Plain Description:'' (displayContent c)"
  shows "ModelMessageContent c =
           \<lparr>explanationText = trim E, latexShown = Some (''$$'' @ B @ ''$$''),
            mathmlShown = None, descShown = None\<rparr>"
proof -
  have l: "matchRx latexRx (displayContent c) =
           Some \<lparr>index = length E, whole = ''LaTeX Formula:'' @ W @ ''$$'' @ B @ ''$$'',
                 group1 = ''$$'' @ B @ ''$$''\<rparr>"
    unfolding assms(1) by (rule match_latex_block[OF assms(2-4)])
  have m: "matchRx mathmlRx (displayContent c) = None"
    unfolding mathmlRx_def by (rule match_Lit_absent[OF assms(5)])
  have d: "matchRx descRx (displayContent c) = None"
    unfolding descRx_def by (rule match_Lit_absent[OF assms(6)])
  have "take (length E) (displayContent c) = E" unfolding assms(1) by simp
  then show ?thesis
    unfolding ModelMessageContent_def Let_def matchPos_index l m d substring0_def by simp
qed

text \<open>
  Claim C5, as amended. The explanation is the display text before the earliest start
  of a labelled section, with the white space at its ends removed, or the whole display
  text when no section is found. Each section shown is the group of its match; a section
  whose label does not occur is absent, and a section that is shown has its label,
  white space and, for the two formulas, a block between its delimiters. In particular, for a display text that is \<open>E\<close>,
  the label of the LaTeX formula, white space \<open>W\<close>, and a block \<open>$$B$$\<close>, with no
  label in \<open>E\<close>, no dollar sign in \<open>B\<close> and neither of the two other labels: the
  explanation is \<open>E\<close> with the white space at its ends removed, the LaTeX formula is
  the block, and the MathML block and the description are absent.
\<close>

theorem explanation_is_trimmed_text_before_first_section:
  "explanationText (ModelMessageContent c) =
     (if sectionStarts (displayContent c) = [] then displayContent c
      else trim (take (Min (set (sectionStarts (displayContent c)))) (displayContent c))) \<and>
   latexShown (ModelMessageContent c) = map_option group1 (matchRx latexRx (displayContent c)) \<and>
   mathmlShown (ModelMessageContent c) = map_option group1 (matchRx mathmlRx (displayContent c)) \<and>
   descShown (ModelMessageContent c) = map_option group1 (matchRx descRx (displayContent c)) \<and>
   (\<not> includesStr (displayContent c) ''LaTeX Formula:'' \<longrightarrow> latexShown (ModelMessageContent c) = None) \<and>
   (\<not> includesStr (displayContent c) ''MathML Formula:'' \<longrightarrow> mathmlShown (ModelMessageContent c) = None) \<and>
   (\<not> includesStr (displayContent c) ''Plain Description:'' \<longrightarrow> descShown (ModelMessageContent c) = None) \<and>
   (displayContent c = E @ ''LaTeX Formula:'' @ W @ ''$$'' @ B @ ''$$'' @ R \<and>
    \<not> includesStr E ''LaTeX Formula:'' \<and> (\<forall>a\<in>set W. isWhiteSpace a) \<and> CHR ''$'' \<notin> set B \<and>
    \<not> includesStr (displayContent c) ''MathML Formula:'' \<and>
    \<not> includesStr (displayContent c) ''Plain Description:'' \<longrightarrow>
    ModelMessageContent c =
      \<lparr>explanationText = trim E, latexShown = Some (''$$'' @ B @ ''$$''),
       mathmlShown = None, descShown = None\<rparr>) \<and>
   (latexShown (ModelMessageContent c) = Some g \<longrightarrow>
      (\<exists>E W B R. displayContent c = E @ ''LaTeX Formula:'' @ W @ g @ R \<and>
         (\<forall>x\<in>set W. isWhiteSpace x) \<and> g = ''$$'' @ B @ ''$$'')) \<and>
   (mathmlShown (ModelMessageContent c) = Some g \<longrightarrow>
      (\<exists>E W B R. displayContent c = E @ ''MathML Formula:'' @ W @ g @ R \<and>
         (\<forall>x\<in>set W. isWhiteSpace x) \<and> g = ''<math'' @ B @ ''</math>'')) \<and>
   (descShown (ModelMessageContent c) = Some g \<longrightarrow>
      (\<exists>E W. displayContent c = E @ ''Plain Description:'' @ W @ g \<and>
         (\<forall>x\<in>set W. isWhiteSpace x)))"
proof -
  have shown: "latexShown (ModelMessageContent c) = map_option group1 (matchRx latexRx (displayContent c))"
    "mathmlShown (ModelMessageContent c) = map_option group1 (matchRx mathmlRx (displayContent c))"
    "descShown (ModelMessageContent c) = map_option group1 (matchRx descRx (displayContent c))"
    by (simp_all add: ModelMessageContent_def Let_def)
  have absent: "\<not> includesStr (displayContent c) ''LaTeX Formula:'' \<longrightarrow>
      matchRx latexRx (displayContent c) = None"
    "\<not> includesStr (displayContent c) ''MathML Formula:'' \<longrightarrow>
      matchRx mathmlRx (displayContent c) = None"
    "\<not> includesStr (displayContent c) ''Plain Description:'' \<longrightarrow>
      matchRx descRx (displayContent c) = None"
    unfolding includesStr_sublist latexRx_def mathmlRx_def descRx_def
    by (simp_all add: match_Lit_absent)
  have only: "displayContent c = E @ ''LaTeX Formula:'' @ W @ ''$$'' @ B @ ''$$'' @ R \<and>
    \<not> includesStr E ''LaTeX Formula:'' \<and> (\<forall>a\<in>set W. isWhiteSpace a) \<and> CHR ''$'' \<notin> set B \<and>
    \<not> includesStr (displayContent c) ''MathML Formula:'' \<and>
    \<not> includesStr (displayContent c) ''Plain Description:'' \<longrightarrow>
    ModelMessageContent c =
      \<lparr>explanationText = trim E, latexShown = Some (''$$'' @ B @ ''$$''),
       mathmlShown = None, descShown = None\<rparr>"
    unfolding includesStr_sublist using latex_only[of c E W B R] by blast
  from absent shown have gone:
    "\<not> includesStr (displayContent c) ''LaTeX Formula:'' \<longrightarrow> latexShown (ModelMessageContent c) = None"
    "\<not> includesStr (displayContent c) ''MathML Formula:'' \<longrightarrow> mathmlShown (ModelMessageContent c) = None"
    "\<not> includesStr (displayContent c) ''Plain Description:'' \<longrightarrow> descShown (ModelMessageContent c) = None"
    by simp_all
  note wf = sections_shown_are_well_formed[of c g]
  show ?thesis
    by (intro conjI) (fact explanation_general shown gone only wf)+
qed

theorem explanation_is_trimmed_text_before_first_section_witness:
  "displayContent ''Bayes rule. LaTeX Formula: $$P(A|B)$$'' =
     ''Bayes rule. '' @ ''LaTeX Formula:'' @ '' '' @ ''$$'' @ ''P(A|B)'' @ ''$$'' @ [] \<and>
   \<not> includesStr ''Bayes rule. '' ''LaTeX Formula:'' \<and> list_all isWhiteSpace '' '' \<and>
   CHR ''$'' \<notin> set ''P(A|B)'' \<and>
   \<not> includesStr (displayContent ''Bayes rule. LaTeX Formula: $$P(A|B)$$'') ''MathML Formula:'' \<and>
   \<not> includesStr (displayContent ''Bayes rule. LaTeX Formula: $$P(A|B)$$'')
        ''Plain Description:'' \<and>
   ModelMessageContent ''Bayes rule. LaTeX Formula: $$P(A|B)$$'' =
     \<lparr>explanationText = ''Bayes rule.'', latexShown = Some ''$$P(A|B)$$'',
      mathmlShown = None, descShown = None\<rparr> \<and>
   (\<exists>E W B R. displayContent ''Bayes rule. LaTeX Formula: $$P(A|B)$$'' =
        E @ ''LaTeX Formula:'' @ W @ ''$$P(A|B)$$'' @ R \<and>
      list_all isWhiteSpace W \<and> ''$$P(A|B)$$'' = ''$$'' @ B @ ''$$'')"
proof -
  let ?c = "''Bayes rule. LaTeX Formula: $$P(A|B)$$''"
  have d: "displayContent ?c = ?c"
    by (simp add: displayContent_def replaceRx_def matchRx_def voiceOverRx_def trim_def
        isWhiteSpace_def)
  have a: "displayContent ?c =
     ''Bayes rule. '' @ ''LaTeX Formula:'' @ '' '' @ ''$$'' @ ''P(A|B)'' @ ''$$'' @ []"
    unfolding d by simp
  have b: "\<not> includesStr ''Bayes rule. '' ''LaTeX Formula:''" by simp
  have w: "\<forall>a\<in>set '' ''. isWhiteSpace a" by (simp add: isWhiteSpace_def)
  have e: "CHR ''$'' \<notin> set ''P(A|B)''" by simp
  have f: "\<not> includesStr (displayContent ?c) ''MathML Formula:''" unfolding d by simp
  have g: "\<not> includesStr (displayContent ?c) ''Plain Description:''" unfolding d by simp
  have t: "trim ''Bayes rule. '' = ''Bayes rule.''" by (simp add: trim_def isWhiteSpace_def)
  note inst = explanation_is_trimmed_text_before_first_section[of ?c "''Bayes rule. ''" "'' ''"
      "''P(A|B)''" "[]" "''$$P(A|B)$$''"]
  note only = inst[THEN conjunct2, THEN conjunct2, THEN conjunct2, THEN conjunct2,
      THEN conjunct2, THEN conjunct2, THEN conjunct2, THEN conjunct1]
  note shape = inst[THEN conjunct2, THEN conjunct2, THEN conjunct2, THEN conjunct2,
      THEN conjunct2, THEN conjunct2, THEN conjunct2, THEN conjunct2, THEN conjunct1]
  from only a b w e f g have "ModelMessageContent ?c =
      \<lparr>explanationText = trim ''Bayes rule. '', latexShown = Some (''$$'' @ ''P(A|B)'' @ ''$$''),
       mathmlShown = None, descShown = None\<rparr>"
    by blast
  then have r: "ModelMessageContent ?c =
     \<lparr>explanationText = ''Bayes rule.'', latexShown = Some ''$$P(A|B)$$'',
      mathmlShown = None, descShown = None\<rparr>"
    unfolding t by simp
  then have lf: "latexShown (ModelMessageContent ?c) = Some ''$$P(A|B)$$''" by simp
  have ex: "\<exists>E W B R. displayContent ?c = E @ ''LaTeX Formula:'' @ W @ ''$$P(A|B)$$'' @ R \<and>
         list_all isWhiteSpace W \<and> ''$$P(A|B)$$'' = ''$$'' @ B @ ''$$''"
    unfolding list_all_iff by (rule shape[THEN mp, OF lf])
  from w have w': "list_all isWhiteSpace '' ''" unfolding list_all_iff .
  show ?thesis
    by (intro conjI) (fact a b w' e f g r ex)+
qed

text \<open>
  Claim C5 as it is stated fails: in \<open>''a LaTeX Formula: $$x$$''\<close> the only section
  starts at position 2, the text before it is \<open>''a ''\<close>, and the explanation is
  \<open>''a''\<close>.
\<close>

theorem explanation_untrimmed_counterexample:
  "displayContent ''a LaTeX Formula: $$x$$'' = ''a LaTeX Formula: $$x$$'' \<and>
   sectionStarts ''a LaTeX Formula: $$x$$'' = [2] \<and>
   take 2 ''a LaTeX Formula: $$x$$'' = ''a '' \<and>
   explanationText (ModelMessageContent ''a LaTeX Formula: $$x$$'') = ''a'' \<and>
   explanationText (ModelMessageContent ''a LaTeX Formula: $$x$$'') \<noteq>
     take 2 ''a LaTeX Formula: $$x$$''"
  by (simp add: ModelMessageContent_def displayContent_def replaceRx_def matchRx_def
      voiceOverRx_def latexRx_def mathmlRx_def descRx_def sectionStarts_def matchPos_def
      indexOf_def substring0_def trim_def isWhiteSpace_def Let_def)

section \<open>The key check\<close>

text \<open>
  Claim C7. The startup key check sets the key state to \<open>Ready\<close> when the host has no
  key-management facility; when it has one, to \<open>Ready\<close> or \<open>Needed\<close> as the query
  answers, and to \<open>Error\<close>, with the diagnostic message, when the query fails: a failed
  query never gives \<open>Ready\<close>.
\<close>

theorem key_check_fails_closed:
  "keyStatus (checkKeyManagementService h q s) =
     (if aistudio h \<and> hasSelectedApiKeyFn h
      then (case q of Resolved selected \<Rightarrow> (if selected then Ready else Needed)
            | Rejected \<Rightarrow> Error)
      else Ready) \<and>
   keyError (checkKeyManagementService h q s) =
     (if aistudio h \<and> hasSelectedApiKeyFn h \<and> q = Rejected then Some keyServiceError
      else keyError s) \<and>
   run h [CheckDone q] = (checkKeyManagementService h q initial)\<lparr>checkPending := False\<rparr>"
  by (cases q) (simp_all add: checkKeyManagementService_def run_def initial_def)

section \<open>Streaming a reply\<close>

lemma voiceOverText_errorMessage: "voiceOverText errorMessage = None"
  by (simp add: voiceOverText_def errorMessage_def matchRx_def voiceOverRx_def)


lemma streamingInv_sendStart:
  "sendGuard s \<Longrightarrow>
   streamingInv (messages s @ [\<lparr>role = User, content = inputValue s\<rparr>])
     (sent s @ [messageToSend (isMadScientistVoiceOn s) (inputValue s)])
     (isMadScientistVoiceOn s) [] (sendStart s)"
  by (simp add: streamingInv_def sendStart_def sendGuard_def)

text \<open>
  No event other than the end of the stream disturbs a streaming reply: a fragment
  extends the accumulated text, every other event leaves the transcript alone.
\<close>

lemma streamingInv_step:
  assumes "streamingInv base out v acc t" and "\<not> endsStream e"
  shows "streamingInv base out v (acc @ concat (fragmentsOf [e])) (step h t e)"
proof (cases e)
  case (CheckDone q)
  then show ?thesis using assms
    by (auto simp: streamingInv_def checkKeyManagementService_def split: outcome.splits)
next
  case (InitEffect oc)
  then show ?thesis using assms by (auto simp: streamingInv_def initEffect_def)
next
  case ClickSelectKey
  then show ?thesis using assms by (auto simp: streamingInv_def handleSelectKey_def)
next
  case (SelectKeyDone oc)
  then show ?thesis using assms
    by (auto simp: streamingInv_def handleSelectKey_def split: outcome.splits)
next
  case ToggleVoice
  then show ?thesis using assms by (auto simp: streamingInv_def toggleVoiceMode_def Let_def)
next
  case (ChangeInput x)
  then show ?thesis using assms by (auto simp: streamingInv_def)
next
  case Submit
  then show ?thesis using assms by (auto simp: streamingInv_def sendGuard_def)
next
  case (Chunk f)
  then show ?thesis using assms by (auto simp: streamingInv_def deliver_def Let_def)
next
  case (StreamDone x)
  then show ?thesis using assms by simp
qed

lemma fragmentsOf_Cons: "fragmentsOf (e # es) = fragmentsOf [e] @ fragmentsOf es"
  by (cases e) simp_all

lemma streamingInv_steps:
  "streamingInv base out v acc t \<Longrightarrow> \<not> list_ex endsStream es \<Longrightarrow>
   streamingInv base out v (acc @ concat (fragmentsOf es)) (foldl (step h) t es)"
proof (induction es arbitrary: t acc)
  case Nil
  then show ?case by simp
next
  case (Cons e es)
  from Cons.prems have "streamingInv base out v (acc @ concat (fragmentsOf [e])) (step h t e)"
    by (intro streamingInv_step) simp_all
  from Cons.IH[OF this] Cons.prems(2) show ?case
    by (simp add: fragmentsOf_Cons[of e es])
qed

lemma streaming_after_submit:
  assumes "keyStatus s = Ready" and "sendGuard s" and "\<not> list_ex endsStream es"
  shows "streamingInv (messages s @ [\<lparr>role = User, content = inputValue s\<rparr>])
           (sent s @ [messageToSend (isMadScientistVoiceOn s) (inputValue s)])
           (isMadScientistVoiceOn s) (concat (fragmentsOf es))
           (foldl (step h) s (Submit # es))"
  using streamingInv_steps[OF streamingInv_sendStart[OF assms(2)] assms(3), of h] assms(1,2)
  by simp



lemma fragmentsOf_map_Chunk: "fragmentsOf (map Chunk fs) = fs"
  by (induction fs) simp_all

lemma no_end_map_Chunk: "\<not> list_ex endsStream (map Chunk fs)"
  by (induction fs) simp_all

lemma foldl_deliver_steps:
  "sendPending t \<noteq> None \<Longrightarrow>
   foldl (step h) t (map Chunk fs) = foldl (\<lambda>t f. deliver f t) t fs"
proof (induction fs arbitrary: t)
  case Nil
  then show ?case by simp
next
  case (Cons f fs)
  have "sendPending (deliver f t) \<noteq> None" using Cons.prems by (simp add: deliver_def Let_def)
  from Cons.IH[OF this] Cons.prems show ?case by simp
qed

lemma sendPending_foldl_deliver:
  "sendPending (foldl (\<lambda>t f. deliver f t) t fs) = sendPending t"
  by (induction fs arbitrary: t) (simp_all add: deliver_def Let_def)

text \<open>
  One call of \<open>handleSendMessage\<close> is the submission, the deliveries and the end of the
  stream, with nothing in between.
\<close>

lemma handleSendMessage_run:
  assumes "keyStatus s = Ready" and "sendGuard s"
  shows "handleSendMessage h fs e s = foldl (step h) s (Submit # map Chunk fs @ [StreamDone e])"
proof -
  have p: "sendPending (sendStart s) = Some (isMadScientistVoiceOn s)"
    by (simp add: sendStart_def)
  then have "sendPending (sendStart s) \<noteq> None" by simp
  from foldl_deliver_steps[OF this] p show ?thesis
    using assms by (simp add: handleSendMessage_def sendPending_foldl_deliver Let_def)
qed

lemma streamFinally_keeps:
  "messages (streamFinally h v t) = messages t \<and> sent (streamFinally h v t) = sent t \<and>
   \<not> isStreaming (streamFinally h v t) \<and> sendPending (streamFinally h v t) = None"
  by (simp add: streamFinally_def speak_def Let_def split: option.splits)

lemma streamFinally_after_error:
  "speech (streamFinally h v (streamError t)) = speech t"
  by (simp add: streamFinally_def streamError_def voiceOverText_errorMessage Let_def)

lemma streamError_last:
  "messages t = base @ [m] \<Longrightarrow>
   messages (streamError t) = base @ [\<lparr>role = Model, content = errorMessage\<rparr>] \<and>
   sent (streamError t) = sent t"
  by (simp add: streamError_def)

lemma stream_end_step:
  "streamingInv base out v acc t \<Longrightarrow>
   step h t (StreamDone e) =
     streamFinally h v (case e of Exhausted \<Rightarrow> t | Failed \<Rightarrow> streamError t)"
  by (simp add: streamingInv_def)

lemma stream_end_result:
  assumes "streamingInv base out v acc t"
  shows "messages (step h t (StreamDone e)) =
           base @ [\<lparr>role = Model,
                    content = (case e of Exhausted \<Rightarrow> acc | Failed \<Rightarrow> errorMessage)\<rparr>] \<and>
         sent (step h t (StreamDone e)) = out \<and>
         \<not> isStreaming (step h t (StreamDone e)) \<and>
         sendPending (step h t (StreamDone e)) = None"
proof -
  have m: "messages t = base @ [\<lparr>role = Model, content = acc\<rparr>]" and o: "sent t = out"
    using assms by (simp_all add: streamingInv_def)
  show ?thesis
    unfolding stream_end_step[OF assms]
    using streamError_last[OF m] m o by (cases e) (simp_all add: streamFinally_keeps)
qed

text \<open>
  The transcript after one whole call of \<open>handleSendMessage\<close>: the user turn and the
  reply, or the apology when the stream failed.
\<close>

lemma handleSendMessage_transcript:
  assumes "keyStatus s = Ready" and "sendGuard s"
  shows "messages (handleSendMessage h fs e s) =
           messages s @ [\<lparr>role = User, content = inputValue s\<rparr>,
                         \<lparr>role = Model,
                          content = (case e of Exhausted \<Rightarrow> concat fs
                                     | Failed \<Rightarrow> errorMessage)\<rparr>]"
proof -
  define t where "t = foldl (step h) s (Submit # map Chunk fs)"
  have inv: "streamingInv (messages s @ [\<lparr>role = User, content = inputValue s\<rparr>])
           (sent s @ [messageToSend (isMadScientistVoiceOn s) (inputValue s)])
           (isMadScientistVoiceOn s) (concat fs) t"
    unfolding t_def
    using streaming_after_submit[OF assms no_end_map_Chunk, where h = h and fs1 = fs]
    by (simp only: fragmentsOf_map_Chunk)
  have "handleSendMessage h fs e s = step h t (StreamDone e)"
    unfolding handleSendMessage_run[OF assms] by (simp add: t_def)
  with stream_end_result[OF inv, of h e] show ?thesis by simp
qed

text \<open>
  Claim C4. When the stream fails, at its opening or after any number of fragments, the
  trailing model turn holds exactly the apology and nothing of the streamed text,
  \<open>isStreaming\<close> is false again, no call is left suspended, the message has been sent
  once only, and the handling of the failure makes no call on the speech engine.
\<close>

theorem stream_failure_shows_apology:
  assumes "keyStatus s = Ready" and "sendGuard s" and "\<not> list_ex endsStream es"
  shows "messages (foldl (step h) s (Submit # es @ [StreamDone Failed])) =
           messages s @ [\<lparr>role = User, content = inputValue s\<rparr>,
                         \<lparr>role = Model,
                          content = ''Oops! Something went wrong. Please try again.''\<rparr>] \<and>
         \<not> isStreaming (foldl (step h) s (Submit # es @ [StreamDone Failed])) \<and>
         sendPending (foldl (step h) s (Submit # es @ [StreamDone Failed])) = None \<and>
         sent (foldl (step h) s (Submit # es @ [StreamDone Failed])) =
           sent s @ [messageToSend (isMadScientistVoiceOn s) (inputValue s)] \<and>
         speech (foldl (step h) s (Submit # es @ [StreamDone Failed])) =
           speech (foldl (step h) s (Submit # es))"
proof -
  define t where "t = foldl (step h) s (Submit # es)"
  have inv: "streamingInv (messages s @ [\<lparr>role = User, content = inputValue s\<rparr>])
           (sent s @ [messageToSend (isMadScientistVoiceOn s) (inputValue s)])
           (isMadScientistVoiceOn s) (concat (fragmentsOf es)) t"
    unfolding t_def by (rule streaming_after_submit[OF assms])
  have eq: "foldl (step h) s (Submit # es @ [StreamDone Failed]) = step h t (StreamDone Failed)"
    by (simp add: t_def)
  have "speech (step h t (StreamDone Failed)) = speech t"
    unfolding stream_end_step[OF inv] by (simp add: streamFinally_after_error)
  with stream_end_result[OF inv, of h Failed] show ?thesis
    unfolding eq t_def[symmetric] by (simp add: errorMessage_def)
qed

theorem stream_failure_shows_apology_witness:
  "keyStatus askingState = Ready \<and> sendGuard askingState \<and>
   \<not> list_ex endsStream [Chunk ''P(A|B) '', Chunk ''= ''] \<and>
   messages (foldl (step aiStudioHost) askingState
               (Submit # [Chunk ''P(A|B) '', Chunk ''= ''] @ [StreamDone Failed])) =
     [\<lparr>role = Model, content = readyGreeting\<rparr>,
      \<lparr>role = User, content = ''What is P(A|B)?''\<rparr>,
      \<lparr>role = Model, content = ''Oops! Something went wrong. Please try again.''\<rparr>] \<and>
   \<not> isStreaming (foldl (step aiStudioHost) askingState
               (Submit # [Chunk ''P(A|B) '', Chunk ''= ''] @ [StreamDone Failed]))"
proof -
  have a: "keyStatus askingState = Ready" by (simp add: askingState_def)
  have b: "sendGuard askingState"
    by (simp add: askingState_def sendGuard_def trim_def isWhiteSpace_def)
  have c: "\<not> list_ex endsStream [Chunk ''P(A|B) '', Chunk ''= '']" by simp
  have e: "messages askingState = [\<lparr>role = Model, content = readyGreeting\<rparr>]"
    and f: "inputValue askingState = ''What is P(A|B)?''"
    by (simp_all add: askingState_def)
  show ?thesis
    using a b c stream_failure_shows_apology[OF a b c, of aiStudioHost]
    unfolding e f by simp
qed



section \<open>The entry guard\<close>

text \<open>
  Claim C2. A submission whose input is empty or consists of white space only, or that
  is made without a session, or while a reply is streaming, changes nothing: the whole
  state, with the transcript and the record of what was sent, stays as it was. The same
  holds in the basic variant, whose flag is \<open>isLoading\<close>.
\<close>

theorem guarded_submission_is_noop:
  "((\<forall>c\<in>set (inputValue s). isWhiteSpace c) \<or> chat s = None \<or> isStreaming s \<longrightarrow>
      handleSendMessage h fs e s = s \<and> step h s Submit = s) \<and>
   ((\<forall>c\<in>set (inputValueB b). isWhiteSpace c) \<or> chatB b = None \<or> isLoading b \<longrightarrow>
      handleSendMessageBasic fs e b = b)"
  by (auto simp: handleSendMessage_def sendGuard_def handleSendMessageBasic_def
        trim_Nil_iff[symmetric])

theorem guarded_submission_is_noop_witness:
  "isStreaming (sendStart askingState) \<and>
   handleSendMessage aiStudioHost [''1/2''] Exhausted (sendStart askingState) =
     sendStart askingState \<and>
   step aiStudioHost (sendStart askingState) Submit = sendStart askingState \<and>
   list_all isWhiteSpace (inputValueB blankBasicState) \<and>
   handleSendMessageBasic [''1/2''] Exhausted blankBasicState = blankBasicState"
proof -
  have a: "isStreaming (sendStart askingState)" by (simp add: sendStart_def)
  have b: "\<forall>c\<in>set (inputValueB blankBasicState). isWhiteSpace c"
    by (simp add: blankBasicState_def isWhiteSpace_def)
  show ?thesis
    using a b
      guarded_submission_is_noop[of "sendStart askingState" aiStudioHost "[''1/2'']" Exhausted
        blankBasicState]
    unfolding list_all_iff by blast
qed

section \<open>Voice mode\<close>

lemma speech_step_no_engine: "\<not> speechSynthesis h \<Longrightarrow> speech (step h s e) = speech s"
  by (cases e)
    (auto simp: checkKeyManagementService_def initEffect_def initializeChat_def
       handleSelectKey_def toggleVoiceMode_def sendStart_def deliver_def streamFinally_def
       streamError_def speak_def Let_def
       split: outcome.splits createOutcome.splits option.splits streamEnd.splits)

lemma speech_steps_no_engine:
  "\<not> speechSynthesis h \<Longrightarrow> speech (foldl (step h) s es) = speech s"
  by (induction es arbitrary: s) (simp_all add: speech_step_no_engine)

text \<open>
  The end of a stream reads the value of \<open>isMadScientistVoiceOn\<close> that the call
  captured at the submission: a reply whose stream ends after voice mode was turned off
  is still narrated.
\<close>

lemma reply_narrated_after_toggle_off:
  "speech (foldl (step aiStudioHost) (askingState\<lparr>isMadScientistVoiceOn := True\<rparr>)
             [Submit, ToggleVoice, Chunk ''VOICE_OVER: Eureka'', StreamDone Exhausted]) =
     [Cancel, Cancel,
      Speak \<lparr>utext = ''Eureka'', pitch10 = 14, rate10 = 11, volume10 = 10\<rparr>] \<and>
   \<not> isMadScientistVoiceOn
       (foldl (step aiStudioHost) (askingState\<lparr>isMadScientistVoiceOn := True\<rparr>)
             [Submit, ToggleVoice, Chunk ''VOICE_OVER: Eureka'', StreamDone Exhausted])"
  by (simp add: askingState_def aiStudioHost_def sendGuard_def sendStart_def deliver_def
      toggleVoiceMode_def streamFinally_def speak_def voiceOverText_def matchRx_def
      voiceOverRx_def trim_def isWhiteSpace_def Let_def)

text \<open>
  Claim C9. In every state with voice mode on, the click on the voice button turns
  voice mode off and, on a host with a speech engine, calls the engine's \<open>cancel\<close> as
  the last call on it. On a host without a speech engine no call on an engine is made
  in any run of the component, so nothing is ever being spoken.
\<close>

theorem voice_toggle_off_cancels_speech:
  assumes "isMadScientistVoiceOn s"
  shows "\<not> isMadScientistVoiceOn (step h s ToggleVoice) \<and>
         (speechSynthesis h \<longrightarrow> speech (step h s ToggleVoice) = speech s @ [Cancel]) \<and>
         (\<not> speechSynthesis h \<longrightarrow> speech (run h es) = [])"
  using assms speech_steps_no_engine[of h initial es]
  by (simp add: toggleVoiceMode_def run_def initial_def Let_def)

theorem voice_toggle_off_cancels_speech_witness:
  "isMadScientistVoiceOn (run aiStudioHost [ToggleVoice]) \<and> speechSynthesis aiStudioHost \<and>
   \<not> isMadScientistVoiceOn (step aiStudioHost (run aiStudioHost [ToggleVoice]) ToggleVoice) \<and>
   speech (step aiStudioHost (run aiStudioHost [ToggleVoice]) ToggleVoice) = [Cancel] \<and>
   \<not> speechSynthesis plainHost \<and> speech (run plainHost [ToggleVoice, ToggleVoice]) = []"
proof -
  have a: "isMadScientistVoiceOn (run aiStudioHost [ToggleVoice])"
    by (simp add: run_def initial_def toggleVoiceMode_def Let_def)
  have b: "speech (run aiStudioHost [ToggleVoice]) = []"
    by (simp add: run_def initial_def toggleVoiceMode_def Let_def)
  have c: "speechSynthesis aiStudioHost" by (simp add: aiStudioHost_def)
  have d: "\<not> speechSynthesis plainHost" by (simp add: plainHost_def)
  from voice_toggle_off_cancels_speech[OF a, of aiStudioHost] c
  have "\<not> isMadScientistVoiceOn (step aiStudioHost (run aiStudioHost [ToggleVoice]) ToggleVoice)"
    and "speech (step aiStudioHost (run aiStudioHost [ToggleVoice]) ToggleVoice) = [Cancel]"
    unfolding b by simp_all
  moreover from voice_toggle_off_cancels_speech[OF a, of plainHost "[ToggleVoice, ToggleVoice]"] d
  have "speech (run plainHost [ToggleVoice, ToggleVoice]) = []" by simp
  ultimately show ?thesis using a c d by simp
qed

section \<open>Session and key state\<close>

text \<open>A session is installed by the session effect only, in the key state \<open>Ready\<close>.\<close>

lemma session_created_only_when_ready:
  assumes "chat (step h s e) \<noteq> None" and "chat (step h s e) \<noteq> chat s"
  shows "keyStatus s = Ready \<and> (\<exists>c. e = InitEffect (Created c))"
  using assms
  by (cases e)
    (auto simp: checkKeyManagementService_def initEffect_def initializeChat_def
       handleSelectKey_def toggleVoiceMode_def sendStart_def deliver_def streamFinally_def
       streamError_def speak_def Let_def
       split: outcome.splits createOutcome.splits option.splits streamEnd.splits if_splits)

text \<open>
  As long as the key dialog is not requested again while a request is open, a session
  exists only while the key state is \<open>Ready\<close>.
\<close>

lemma serialInv_step:
  assumes "serialInv s" and "e = ClickSelectKey \<longrightarrow> selectKeyPending s = 0"
  shows "serialInv (step h s e)"
  using assms
  by (cases e)
    (auto simp: serialInv_def checkKeyManagementService_def initEffect_def initializeChat_def
       handleSelectKey_def toggleVoiceMode_def sendStart_def deliver_def streamFinally_def
       streamError_def speak_def Let_def
       split: outcome.splits createOutcome.splits option.splits streamEnd.splits if_splits)

lemma serialInv_steps:
  "serialInv s \<Longrightarrow> serial h s es \<Longrightarrow> serialInv (foldl (step h) s es)"
  by (induction es arbitrary: s) (simp_all add: serialInv_step)

lemma session_only_when_ready_serial:
  assumes "serial h initial es" and "chat (run h es) \<noteq> None"
  shows "keyStatus (run h es) = Ready"
proof -
  have "serialInv initial" by (simp add: serialInv_def initial_def)
  from serialInv_steps[OF this assms(1)] assms(2) show ?thesis
    by (simp add: run_def serialInv_def)
qed

text \<open>
  Claim C8. The key button is clicked twice before the dialog answers. The first
  request resolves, the key state becomes \<open>Ready\<close> and the session is created; the
  second request is rejected, and \<open>handleSelectKey\<close> sets the key state to \<open>Needed\<close>
  while the session stays: a live session outside \<open>Ready\<close>.
\<close>

theorem overlapping_key_dialogs_leave_session_outside_ready:
  "chat (run aiStudioHost
           [CheckDone (Resolved False), ClickSelectKey, ClickSelectKey,
            SelectKeyDone (Resolved ()), InitEffect (Created 1), SelectKeyDone Rejected])
     = Some 1 \<and>
   keyStatus (run aiStudioHost
           [CheckDone (Resolved False), ClickSelectKey, ClickSelectKey,
            SelectKeyDone (Resolved ()), InitEffect (Created 1), SelectKeyDone Rejected])
     = Needed"
  by (simp add: run_def initial_def aiStudioHost_def checkKeyManagementService_def
      handleSelectKey_def initEffect_def initializeChat_def)

end
